theory Spec2Isabelle
  imports Complex_Main "HOL-Library.Multiset" "HOL-Library.Log_Nat"
begin

section \<open>Fleiss' Kappa for binary ratings: a model of \<^verbatim>\<open>fleiss_kappa_app.py\<close>\<close>

text \<open>
  The two functions of the source, \<^verbatim>\<open>fleiss_kappa_binary\<close> (the spec's \<^verbatim>\<open>compute\<close>) and
  \<^verbatim>\<open>reviewer_contribution_analysis\<close> (the spec's \<^verbatim>\<open>analyze\<close>), are embedded as HOL
  functions on \<open>int list list\<close>, a list of rater rows.

  Numbers. Ratings and the two counters are Python integers. Every other quantity is a
  binary64 floating-point number in the source. The calculator is modelled twice:
  \<^item> \<open>fleiss_kappa_binary\<close> computes with exact rationals, so that rounding is abstracted
    away. It carries the statements that do not turn on rounding: which quantities are
    computed, how the input is validated, when the result is degenerate.
  \<^item> \<open>fleiss_kappa_binary_f64\<close> rounds the result of every floating-point operation to
    binary64. It carries the statements that turn on the order in which rounded numbers
    are added.

  In both, the outcome of a division by zero is modelled as the source has it, because
  it decides whether a call returns:
  \<^item> \<^verbatim>\<open>agreements / total_pairs\<close> divides two Python integers, which raises
    \<^verbatim>\<open>ZeroDivisionError\<close> on a zero divisor;
  \<^item> \<^verbatim>\<open>p_pos\<close> is the result of \<^verbatim>\<open>np.mean\<close>, a NumPy \<^verbatim>\<open>float64\<close> scalar, and so are
    \<^verbatim>\<open>p_neg\<close>, \<^verbatim>\<open>p_e\<close>, \<^verbatim>\<open>po - p_e\<close> and \<^verbatim>\<open>1 - p_e\<close>. The division of two such
    scalars follows IEEE 754: on a zero divisor it emits a warning and yields a
    not-a-number or an infinity, and the call goes on.
\<close>

subsection \<open>Values and errors\<close>

datatype py_error = ValueError string | ZeroDivisionError

text \<open>A NumPy scalar: a finite value, or one of the three special values of IEEE 754.\<close>

datatype npfloat = Fin rat | PInf | NInf | NaN

definition np_div :: "rat \<Rightarrow> rat \<Rightarrow> npfloat" where
  "np_div a b =
     (if b = 0 then (if a = 0 then NaN else if 0 < a then PInf else NInf)
      else Fin (a / b))"

text \<open>The comparison \<^verbatim>\<open>x > y\<close>: false as soon as one side is not a number.\<close>

fun np_gt :: "npfloat \<Rightarrow> npfloat \<Rightarrow> bool" where
  "np_gt NaN _ = False"
| "np_gt _ NaN = False"
| "np_gt (Fin a) (Fin b) = (b < a)"
| "np_gt PInf PInf = False"
| "np_gt PInf _ = True"
| "np_gt _ PInf = False"
| "np_gt NInf _ = False"
| "np_gt (Fin a) NInf = True"

text \<open>The comparison \<^verbatim>\<open>x == y\<close>: a not-a-number is not equal to anything, itself included.\<close>

fun np_eq :: "npfloat \<Rightarrow> npfloat \<Rightarrow> bool" where
  "np_eq NaN _ = False"
| "np_eq _ NaN = False"
| "np_eq x y = (x = y)"

text \<open>The comparison \<^verbatim>\<open>x <= y\<close>.\<close>

definition np_le :: "npfloat \<Rightarrow> npfloat \<Rightarrow> bool" where
  "np_le x y = (np_gt y x \<or> np_eq x y)"

subsection \<open>The agreement calculator\<close>

text \<open>
  The triple loop
  \<^verbatim>\<open>for i in range(n_items): for j in range(n_raters): for k in range(j + 1, n_raters)\<close>
  threads the pair of counters \<open>(agreements, total_pairs)\<close>. The loop runs only after
  the validation has passed, where every row has \<open>n_items\<close> entries, so that each
  \<^verbatim>\<open>ratings[j][i]\<close> is in range.
\<close>

definition pair_step :: "int list list \<Rightarrow> nat \<Rightarrow> nat \<Rightarrow> nat \<Rightarrow> nat \<times> nat \<Rightarrow> nat \<times> nat" where
  "pair_step ratings i j k s =
     (let total_pairs = snd s + 1;
          agreements = (if ratings ! j ! i = ratings ! k ! i then fst s + 1 else fst s)
      in (agreements, total_pairs))"

definition count_pairs :: "int list list \<Rightarrow> nat \<Rightarrow> nat \<Rightarrow> nat \<times> nat" where
  "count_pairs ratings n_items n_raters =
     fold (\<lambda>i. fold (\<lambda>j. fold (\<lambda>k. pair_step ratings i j k) [j + 1..<n_raters])
                 [0..<n_raters])
          [0..<n_items] (0, 0)"

text \<open>
  The columns, as \<^verbatim>\<open>zip\<close> yields them from the unpacked rows: as many as the
  shortest row has entries.
\<close>

definition zip_star :: "'a list list \<Rightarrow> 'a list list" where
  "zip_star rows =
     (if rows = [] then []
      else map (\<lambda>i. map (\<lambda>r. r ! i) rows) [0..<Min (set (map length rows))])"

text \<open>
  \<^verbatim>\<open>np.mean\<close> of a list. It is called on the list of the \<open>n_items \<ge> 2\<close> per-item
  fractions only, never on an empty list; likewise each fraction divides by
  \<open>n_raters \<ge> 2\<close>, never by zero.
\<close>

definition np_mean :: "rat list \<Rightarrow> rat" where
  "np_mean xs = sum_list xs / of_nat (length xs)"

definition p_pos_of :: "int list list \<Rightarrow> rat" where
  "p_pos_of ratings =
     np_mean (map (\<lambda>item. of_int (sum_list item) / of_nat (length ratings)) (zip_star ratings))"

definition p_e_of :: "int list list \<Rightarrow> rat" where
  "p_e_of ratings =
     (let p_pos = p_pos_of ratings; p_neg = 1 - p_pos in p_pos ^ 2 + p_neg ^ 2)"

definition msg_empty :: string where
  "msg_empty = ''The ratings list is empty.''"

definition msg_raters :: string where
  "msg_raters = ''There should be at least two raters.''"

definition msg_length :: string where
  "msg_length = ''All inner lists should have the same length.''"

definition msg_binary :: string where
  "msg_binary = ''All ratings should be binary (0 or 1).''"

definition msg_items :: string where
  "msg_items = ''There should be at least two items being rated.''"

text \<open>
  The five conditions under which the validation raises, each as the source tests it:
  \<^verbatim>\<open>not ratings\<close>, \<^verbatim>\<open>len(ratings) < 2\<close>, \<^verbatim>\<open>len(set(map(len, ratings))) != 1\<close>,
  \<^verbatim>\<open>any(rating not in [0, 1] for sublist in ratings for rating in sublist)\<close> and
  \<^verbatim>\<open>len(ratings[0]) < 2\<close>.
\<close>

definition chk_empty :: "int list list \<Rightarrow> bool" where
  "chk_empty ratings = (ratings = [])"

definition chk_raters :: "int list list \<Rightarrow> bool" where
  "chk_raters ratings = (length ratings < 2)"

definition chk_length :: "int list list \<Rightarrow> bool" where
  "chk_length ratings = (length (remdups (map length ratings)) \<noteq> 1)"

definition chk_binary :: "int list list \<Rightarrow> bool" where
  "chk_binary ratings =
     list_ex (\<lambda>sublist. list_ex (\<lambda>rating. \<not> List.member [0, 1] rating) sublist) ratings"

definition chk_items :: "int list list \<Rightarrow> bool" where
  "chk_items ratings = (length (ratings ! 0) < 2)"

definition fleiss_kappa_binary :: "int list list \<Rightarrow> py_error + (npfloat \<times> rat)" where
  "fleiss_kappa_binary ratings =
     (if chk_empty ratings then Inl (ValueError msg_empty)
      else if chk_raters ratings then Inl (ValueError msg_raters)
      else if chk_length ratings then Inl (ValueError msg_length)
      else if chk_binary ratings then Inl (ValueError msg_binary)
      else if chk_items ratings then Inl (ValueError msg_items)
      else
        let n_raters = length ratings;
            n_items = length (ratings ! 0);
            (agreements, total_pairs) = count_pairs ratings n_items n_raters
        in if total_pairs = 0 then Inl ZeroDivisionError
           else
             let po = of_nat agreements / of_nat total_pairs;
                 p_e = p_e_of ratings;
                 kappa = np_div (po - p_e) (1 - p_e)
             in Inr (kappa, po))"

subsection \<open>The contribution analyzer\<close>

text \<open>\<^verbatim>\<open>[ratings[j] for j in range(n_raters) if j != i]\<close>\<close>

definition reduced_ratings :: "int list list \<Rightarrow> nat \<Rightarrow> int list list" where
  "reduced_ratings ratings i =
     map (\<lambda>j. ratings ! j) (filter (\<lambda>j. j \<noteq> i) [0..<length ratings])"

text \<open>
  The loop over the raters: the first failing call of the calculator ends the analysis
  with that call's exception, otherwise its kappa is appended to \<open>kappa_scores\<close>.
\<close>

fun exclusion_loop ::
  "int list list \<Rightarrow> nat list \<Rightarrow> npfloat list \<Rightarrow> py_error + npfloat list" where
  "exclusion_loop ratings [] kappa_scores = Inr kappa_scores"
| "exclusion_loop ratings (i # rest) kappa_scores =
     (case fleiss_kappa_binary (reduced_ratings ratings i) of
        Inl e \<Rightarrow> Inl e
      | Inr (kappa, _) \<Rightarrow> exclusion_loop ratings rest (kappa_scores @ [kappa]))"

text \<open>
  Python's \<^verbatim>\<open>max\<close> keeps the first element and replaces it by a later one only when
  that one compares greater. The scan below returns the position of the object kept
  together with its value, because \<^verbatim>\<open>list.index\<close> recognises an object by identity
  before it compares by \<^verbatim>\<open>==\<close>. The scores are the results of separate calls, hence
  distinct objects: a position holds the object searched for only if it is the position
  that the scan kept.
\<close>

fun max_scan :: "nat \<times> npfloat \<Rightarrow> nat \<Rightarrow> npfloat list \<Rightarrow> nat \<times> npfloat" where
  "max_scan best pos [] = best"
| "max_scan best pos (item # items) =
     max_scan (if np_gt item (snd best) then (pos, item) else best) (Suc pos) items"

text \<open>
  The message of \<^verbatim>\<open>max\<close> on an empty sequence, in the wording of CPython up to 3.11.
  Like the errors of the validation it is a \<^verbatim>\<open>ValueError\<close>.
\<close>

definition msg_max :: string where
  "msg_max = ''max() arg is an empty sequence''"

definition py_max :: "npfloat list \<Rightarrow> py_error + (nat \<times> npfloat)" where
  "py_max xs =
     (case xs of [] \<Rightarrow> Inl (ValueError msg_max)
      | x # rest \<Rightarrow> Inr (max_scan (0, x) 1 rest))"

text \<open>
  \<^verbatim>\<open>list.index\<close>: the first position whose element is the object searched for, or
  compares equal to it; a \<^verbatim>\<open>ValueError\<close> when there is none (its message, which
  names the value, is abbreviated here).
\<close>

definition msg_index :: string where
  "msg_index = ''value is not in list''"

fun index_from :: "nat \<Rightarrow> npfloat list \<Rightarrow> nat \<times> npfloat \<Rightarrow> py_error + nat" where
  "index_from pos [] v = Inl (ValueError msg_index)"
| "index_from pos (x # xs) v =
     (if pos = fst v \<or> np_eq x (snd v) then Inr pos else index_from (Suc pos) xs v)"

definition py_index :: "npfloat list \<Rightarrow> nat \<times> npfloat \<Rightarrow> py_error + nat" where
  "py_index xs v = index_from 0 xs v"

definition reviewer_contribution_analysis ::
  "int list list \<Rightarrow> py_error + (nat \<times> npfloat \<times> npfloat list)" where
  "reviewer_contribution_analysis ratings =
     (let n_raters = length ratings in
      case exclusion_loop ratings [0..<n_raters] [] of
        Inl e \<Rightarrow> Inl e
      | Inr kappa_scores \<Rightarrow>
          (case py_max kappa_scores of
             Inl e \<Rightarrow> Inl e
           | Inr highest_kappa \<Rightarrow>
               (case py_index kappa_scores highest_kappa of
                  Inl e \<Rightarrow> Inl e
                | Inr most_contributory_reviewer \<Rightarrow>
                    Inr (most_contributory_reviewer, snd highest_kappa, kappa_scores))))"

subsection \<open>The calculator in binary64 arithmetic\<close>

text \<open>
  Rounding to the nearest binary64 number, ties to the even significand: a number other
  than 0 with \<open>2\<^sup>e \<le> |x| < 2\<^sup>e\<^sup>+\<^sup>1\<close> is rounded to a multiple of \<open>2\<^sup>e\<^sup>-\<^sup>5\<^sup>2\<close>. The exponent is
  not bounded here: on rating matrices that fit into memory no intermediate value of the
  calculator leaves the range of the normal binary64 numbers.
\<close>

definition round_half_even :: "rat \<Rightarrow> int" where
  "round_half_even x =
     (let f = \<lfloor>x\<rfloor>; r = x - of_int f
      in if r < 1 / 2 then f else if 1 / 2 < r then f + 1 else if even f then f else f + 1)"

definition pow2 :: "int \<Rightarrow> rat" where
  "pow2 e = (if 0 \<le> e then 2 ^ nat e else 1 / 2 ^ nat (- e))"

text \<open>
  The exponent \<open>e\<close> with \<open>2\<^sup>e \<le> |x| < 2\<^sup>e\<^sup>+\<^sup>1\<close>, for \<open>x\<close> other than 0: the difference of the bit
  lengths of numerator and denominator, or one less.
\<close>

definition exponent_of :: "rat \<Rightarrow> int" where
  "exponent_of x =
     (let (a, b) = quotient_of \<bar>x\<bar>; e = bitlen a - bitlen b
      in if pow2 e \<le> \<bar>x\<bar> then e else e - 1)"

definition binary64 :: "rat \<Rightarrow> rat" where
  "binary64 x =
     (if x = 0 then 0
      else let ulp = pow2 (exponent_of x - 52) in of_int (round_half_even (x / ulp)) * ulp)"










subsection \<open>Notions used in the statements\<close>

text \<open>
  A valid rating matrix, in the words of the specification: at least two rater rows, at
  least two items, all rows of the same length, every value 0 or 1.
\<close>

definition valid_matrix :: "int list list \<Rightarrow> bool" where
  "valid_matrix m =
     (2 \<le> length m \<and> 2 \<le> length (hd m)
      \<and> list_all (\<lambda>r. length r = length (hd m)) m
      \<and> list_all (list_all (\<lambda>x. x = 0 \<or> x = 1)) m)"

text \<open>Whether raters \<open>j\<close> and \<open>k\<close> gave item \<open>i\<close> the same value, as a number.\<close>

definition agree :: "int list list \<Rightarrow> nat \<Rightarrow> nat \<Rightarrow> nat \<Rightarrow> nat" where
  "agree m i j k = (if m ! j ! i = m ! k ! i then 1 else 0)"

text \<open>The ratings that item \<open>i\<close> received, one per rater.\<close>

definition column :: "'a list list \<Rightarrow> nat \<Rightarrow> 'a list" where
  "column m i = map (\<lambda>r. r ! i) m"

text \<open>
  The number of pairs of positions \<open>j < k\<close> of a list that hold the same value: for a
  column, the unordered pairs of distinct raters who agree on the item.
\<close>

definition pairs_agree :: "'a list \<Rightarrow> nat" where
  "pairs_agree col =
     (\<Sum>j\<leftarrow>[0..<length col]. \<Sum>k\<leftarrow>[Suc j..<length col]. if col ! j = col ! k then 1 else 0)"

text \<open>
  The quantities of the calculator in the words of the specification, for a matrix of
  \<open>R\<close> rows and \<open>N\<close> items: the agreeing pairs are counted, per item, as the unordered
  pairs of distinct raters that gave the same value; the pairs in total are
  \<open>N \<cdot> R \<cdot> (R - 1) / 2\<close>; \<open>p_pos\<close> is the mean over the items of the fraction of raters
  that marked the item 1.
\<close>

definition spec_agreements :: "int list list \<Rightarrow> nat" where
  "spec_agreements m =
     (\<Sum>i<length (hd m). card {(j, k). j < k \<and> k < length m \<and> m ! j ! i = m ! k ! i})"

definition spec_total_pairs :: "int list list \<Rightarrow> nat" where
  "spec_total_pairs m = length (hd m) * length m * (length m - 1) div 2"

definition spec_p_pos :: "int list list \<Rightarrow> rat" where
  "spec_p_pos m =
     (\<Sum>i<length (hd m). of_nat (card {j. j < length m \<and> m ! j ! i = 1}) / of_nat (length m))
       / of_nat (length (hd m))"

definition spec_p_e :: "int list list \<Rightarrow> rat" where
  "spec_p_e m = (spec_p_pos m)\<^sup>2 + (1 - spec_p_pos m)\<^sup>2"


text \<open>The matrix without its row \<open>i\<close>, the other rows in their order.\<close>

definition without_row :: "'a list list \<Rightarrow> nat \<Rightarrow> 'a list list" where
  "without_row m i = take i m @ drop (Suc i) m"

section \<open>The validation\<close>

lemma chk_length_iff:
  assumes "m \<noteq> []"
  shows "chk_length m \<longleftrightarrow> (\<exists>r\<in>set m. length r \<noteq> length (hd m))"
proof -
  from assms have hd_in: "hd m \<in> set m" by simp
  have "card (length ` set m) = 1 \<longleftrightarrow> (\<forall>r\<in>set m. length r = length (hd m))"
  proof
    assume "card (length ` set m) = 1"
    then obtain n where n: "length ` set m = {n}" by (rule card_1_singletonE)
    then have "\<forall>r\<in>set m. length r = n" by blast
    with hd_in show "\<forall>r\<in>set m. length r = length (hd m)" by simp
  next
    assume a: "\<forall>r\<in>set m. length r = length (hd m)"
    have "length ` set m = {length (hd m)}"
    proof
      show "length ` set m \<subseteq> {length (hd m)}" using a by blast
      show "{length (hd m)} \<subseteq> length ` set m" using hd_in by blast
    qed
    then show "card (length ` set m) = 1" by simp
  qed
  moreover have "chk_length m \<longleftrightarrow> card (length ` set m) \<noteq> 1"
    unfolding chk_length_def length_remdups_card_conv set_map ..
  ultimately show ?thesis by blast
qed

lemma chk_binary_iff:
  "chk_binary m \<longleftrightarrow> (\<exists>r\<in>set m. \<exists>x\<in>set r. x \<noteq> 0 \<and> x \<noteq> 1)"
  by (auto simp: chk_binary_def list_ex_iff List.member_iff)

lemma chk_items_iff: "m \<noteq> [] \<Longrightarrow> chk_items m \<longleftrightarrow> length (hd m) < 2"
  by (simp add: chk_items_def hd_conv_nth)

lemma valid_matrix_checks:
  "valid_matrix m \<longleftrightarrow>
     \<not> chk_empty m \<and> \<not> chk_raters m \<and> \<not> chk_length m \<and> \<not> chk_binary m \<and> \<not> chk_items m"
proof (cases "m = []")
  case True
  then show ?thesis by (simp add: valid_matrix_def chk_empty_def)
next
  case False
  have e: "\<not> chk_empty m" using False by (simp add: chk_empty_def)
  have r: "\<not> chk_raters m \<longleftrightarrow> 2 \<le> length m" by (simp add: chk_raters_def not_less)
  have l: "\<not> chk_length m \<longleftrightarrow> list_all (\<lambda>r. length r = length (hd m)) m"
    by (simp add: chk_length_iff [OF False] list_all_iff)
  have b: "\<not> chk_binary m \<longleftrightarrow> list_all (list_all (\<lambda>x. x = 0 \<or> x = 1)) m"
    unfolding chk_binary_iff list_all_iff by blast
  have i: "\<not> chk_items m \<longleftrightarrow> 2 \<le> length (hd m)"
    by (simp add: chk_items_iff [OF False] not_less)
  show ?thesis unfolding valid_matrix_def using e r l b i by blast
qed

section \<open>The counting loop\<close>

lemma fold_counters:
  fixes g h :: "'a \<Rightarrow> nat"
  shows "fold (\<lambda>x s. (fst s + g x, snd s + h x)) xs
     = (\<lambda>s. (fst s + sum_list (map g xs), snd s + sum_list (map h xs)))"
proof
  fix s :: "nat \<times> nat"
  show "fold (\<lambda>x s. (fst s + g x, snd s + h x)) xs s
     = (fst s + sum_list (map g xs), snd s + sum_list (map h xs))"
    by (induction xs arbitrary: s) (simp_all add: add.assoc)
qed

lemma pair_step_counters:
  "pair_step m i j k = (\<lambda>s. (fst s + agree m i j k, snd s + 1))"
  by (auto simp: pair_step_def agree_def fun_eq_iff)

lemma count_pairs_sums:
  "count_pairs m n_items n_raters =
     (\<Sum>i\<leftarrow>[0..<n_items]. \<Sum>j\<leftarrow>[0..<n_raters]. \<Sum>k\<leftarrow>[Suc j..<n_raters]. agree m i j k,
      \<Sum>i\<leftarrow>[0..<n_items]. \<Sum>j\<leftarrow>[0..<n_raters]. \<Sum>k\<leftarrow>[Suc j..<n_raters]. 1)"
  unfolding count_pairs_def pair_step_counters fold_counters
  by simp

lemma pairs_per_item: "(\<Sum>j\<leftarrow>[0..<R]. \<Sum>k\<leftarrow>[Suc j..<R]. (1::nat)) = R * (R - 1) div 2"
proof -
  have "(\<Sum>j\<leftarrow>[0..<R]. \<Sum>k\<leftarrow>[Suc j..<R]. (1::nat)) = (\<Sum>j<R. R - Suc j)"
    by (simp add: interv_sum_list_conv_sum_set_nat sum_list_triv atLeast0LessThan)
  also have "\<dots> = (\<Sum>j<R. j)"
    by (rule sum.nat_diff_reindex)
  also have "\<dots> = R * (R - 1) div 2"
    using Sum_Ico_nat [of 0 R] by (simp add: atLeast0LessThan)
  finally show ?thesis .
qed

lemma count_pairs_total:
  "snd (count_pairs m N R) = N * (R * (R - 1) div 2)"
  unfolding count_pairs_sums snd_conv pairs_per_item
  by (simp add: sum_list_triv)

lemma count_pairs_total_pos:
  assumes "2 \<le> R" "2 \<le> N"
  shows "0 < snd (count_pairs m N R)"
proof -
  have "2 * 1 \<le> R * (R - 1)"
    by (rule mult_le_mono) (use assms(1) in auto)
  then have "0 < R * (R - 1) div 2" by simp
  with assms(2) show ?thesis by (simp add: count_pairs_total)
qed

lemma fleiss_kappa_binary_valid:
  assumes "valid_matrix m"
  shows "fleiss_kappa_binary m =
           Inr (np_div (of_nat (fst (count_pairs m (length (hd m)) (length m)))
                          / of_nat (snd (count_pairs m (length (hd m)) (length m))) - p_e_of m)
                       (1 - p_e_of m),
                of_nat (fst (count_pairs m (length (hd m)) (length m)))
                  / of_nat (snd (count_pairs m (length (hd m)) (length m))))"
proof -
  from assms have ne: "m \<noteq> []" and R: "2 \<le> length m" and N: "2 \<le> length (hd m)"
    by (auto simp: valid_matrix_def)
  have pos: "snd (count_pairs m (length (hd m)) (length m)) \<noteq> 0"
    using count_pairs_total_pos [OF R N, of m] by simp
  from assms have chk: "\<not> chk_empty m" "\<not> chk_raters m" "\<not> chk_length m"
      "\<not> chk_binary m" "\<not> chk_items m"
    by (simp_all add: valid_matrix_checks)
  show ?thesis
    using pos by (simp add: fleiss_kappa_binary_def chk hd_conv_nth [OF ne] Let_def split_beta)
qed

lemma msgs_distinct:
  "msg_empty \<noteq> msg_raters" "msg_empty \<noteq> msg_length" "msg_empty \<noteq> msg_binary"
  "msg_empty \<noteq> msg_items" "msg_raters \<noteq> msg_length" "msg_raters \<noteq> msg_binary"
  "msg_raters \<noteq> msg_items" "msg_length \<noteq> msg_binary" "msg_length \<noteq> msg_items"
  "msg_binary \<noteq> msg_items"
  by (simp_all add: msg_empty_def msg_raters_def msg_length_def msg_binary_def msg_items_def)

text \<open>
  Claim C2. The calculator validates its input with exactly five checks, in this order:
  the matrix is non-empty, it has at least two rows, all rows have the same length, every
  value is 0 or 1, the rows have at least two entries. It fails with the message of the
  first check that is violated, and it returns when none is. The empty matrix also meets
  the raising condition of the third check, and still fails with the message of the
  first. The five messages are pairwise distinct.
\<close>

theorem validation_order:
  "(m = [] \<longrightarrow> fleiss_kappa_binary m = Inl (ValueError msg_empty))
   \<and> (m \<noteq> [] \<and> length m < 2 \<longrightarrow> fleiss_kappa_binary m = Inl (ValueError msg_raters))
   \<and> (2 \<le> length m \<and> (\<exists>r\<in>set m. \<exists>r'\<in>set m. length r \<noteq> length r')
        \<longrightarrow> fleiss_kappa_binary m = Inl (ValueError msg_length))
   \<and> (2 \<le> length m \<and> (\<forall>r\<in>set m. \<forall>r'\<in>set m. length r = length r')
        \<and> (\<exists>r\<in>set m. \<exists>x\<in>set r. x \<noteq> 0 \<and> x \<noteq> 1)
        \<longrightarrow> fleiss_kappa_binary m = Inl (ValueError msg_binary))
   \<and> (2 \<le> length m \<and> (\<forall>r\<in>set m. \<forall>r'\<in>set m. length r = length r')
        \<and> (\<forall>r\<in>set m. \<forall>x\<in>set r. x = 0 \<or> x = 1) \<and> (\<exists>r\<in>set m. length r < 2)
        \<longrightarrow> fleiss_kappa_binary m = Inl (ValueError msg_items))
   \<and> (2 \<le> length m \<and> (\<forall>r\<in>set m. \<forall>r'\<in>set m. length r = length r')
        \<and> (\<forall>r\<in>set m. \<forall>x\<in>set r. x = 0 \<or> x = 1) \<and> (\<forall>r\<in>set m. 2 \<le> length r)
        \<longrightarrow> (\<exists>kappa po. fleiss_kappa_binary m = Inr (kappa, po)))
   \<and> chk_empty [] \<and> chk_length []
   \<and> fleiss_kappa_binary [] = Inl (ValueError msg_empty)
   \<and> distinct [msg_empty, msg_raters, msg_length, msg_binary, msg_items]"
proof -
  have eq_len: "(\<exists>r\<in>set m. \<exists>r'\<in>set m. length r \<noteq> length r') \<longleftrightarrow> chk_length m"
    if "m \<noteq> []"
    using that hd_in_set [OF that] unfolding chk_length_iff [OF that] by metis
  have c1: "m = [] \<longrightarrow> fleiss_kappa_binary m = Inl (ValueError msg_empty)"
    by (simp add: fleiss_kappa_binary_def chk_empty_def)
  have c2: "m \<noteq> [] \<and> length m < 2 \<longrightarrow> fleiss_kappa_binary m = Inl (ValueError msg_raters)"
    by (simp add: fleiss_kappa_binary_def chk_empty_def chk_raters_def)
  have c3: "2 \<le> length m \<and> (\<exists>r\<in>set m. \<exists>r'\<in>set m. length r \<noteq> length r')
        \<longrightarrow> fleiss_kappa_binary m = Inl (ValueError msg_length)"
  proof
    assume a: "2 \<le> length m \<and> (\<exists>r\<in>set m. \<exists>r'\<in>set m. length r \<noteq> length r')"
    then have ne: "m \<noteq> []" by auto
    with a have "chk_length m" using eq_len by blast
    with a ne show "fleiss_kappa_binary m = Inl (ValueError msg_length)"
      by (simp add: fleiss_kappa_binary_def chk_empty_def chk_raters_def)
  qed
  have c4: "2 \<le> length m \<and> (\<forall>r\<in>set m. \<forall>r'\<in>set m. length r = length r')
        \<and> (\<exists>r\<in>set m. \<exists>x\<in>set r. x \<noteq> 0 \<and> x \<noteq> 1)
        \<longrightarrow> fleiss_kappa_binary m = Inl (ValueError msg_binary)"
  proof
    assume a: "2 \<le> length m \<and> (\<forall>r\<in>set m. \<forall>r'\<in>set m. length r = length r')
        \<and> (\<exists>r\<in>set m. \<exists>x\<in>set r. x \<noteq> 0 \<and> x \<noteq> 1)"
    then have ne: "m \<noteq> []" by auto
    from a have "\<not> chk_length m" using eq_len [OF ne] by blast
    moreover from a have "chk_binary m" by (simp add: chk_binary_iff)
    ultimately show "fleiss_kappa_binary m = Inl (ValueError msg_binary)"
      using a ne by (simp add: fleiss_kappa_binary_def chk_empty_def chk_raters_def)
  qed
  have c5: "2 \<le> length m \<and> (\<forall>r\<in>set m. \<forall>r'\<in>set m. length r = length r')
        \<and> (\<forall>r\<in>set m. \<forall>x\<in>set r. x = 0 \<or> x = 1) \<and> (\<exists>r\<in>set m. length r < 2)
        \<longrightarrow> fleiss_kappa_binary m = Inl (ValueError msg_items)"
  proof
    assume a: "2 \<le> length m \<and> (\<forall>r\<in>set m. \<forall>r'\<in>set m. length r = length r')
        \<and> (\<forall>r\<in>set m. \<forall>x\<in>set r. x = 0 \<or> x = 1) \<and> (\<exists>r\<in>set m. length r < 2)"
    then have ne: "m \<noteq> []" by auto
    from a have "\<not> chk_length m" using eq_len [OF ne] by blast
    moreover from a have "\<not> chk_binary m" unfolding chk_binary_iff by blast
    moreover from a have "chk_items m"
      unfolding chk_items_iff [OF ne] using hd_in_set [OF ne] by metis
    ultimately show "fleiss_kappa_binary m = Inl (ValueError msg_items)"
      using a ne by (simp add: fleiss_kappa_binary_def chk_empty_def chk_raters_def)
  qed
  have c6: "2 \<le> length m \<and> (\<forall>r\<in>set m. \<forall>r'\<in>set m. length r = length r')
        \<and> (\<forall>r\<in>set m. \<forall>x\<in>set r. x = 0 \<or> x = 1) \<and> (\<forall>r\<in>set m. 2 \<le> length r)
        \<longrightarrow> (\<exists>kappa po. fleiss_kappa_binary m = Inr (kappa, po))"
  proof
    assume a: "2 \<le> length m \<and> (\<forall>r\<in>set m. \<forall>r'\<in>set m. length r = length r')
        \<and> (\<forall>r\<in>set m. \<forall>x\<in>set r. x = 0 \<or> x = 1) \<and> (\<forall>r\<in>set m. 2 \<le> length r)"
    then have ne: "m \<noteq> []" by auto
    from a hd_in_set [OF ne] have "valid_matrix m"
      unfolding valid_matrix_def list_all_iff by blast
    from fleiss_kappa_binary_valid [OF this]
    show "\<exists>kappa po. fleiss_kappa_binary m = Inr (kappa, po)" by blast
  qed
  have c7: "chk_empty [] \<and> chk_length []
     \<and> fleiss_kappa_binary [] = Inl (ValueError msg_empty)"
    by (simp add: fleiss_kappa_binary_def chk_empty_def chk_length_def)
  have c8: "distinct [msg_empty, msg_raters, msg_length, msg_binary, msg_items]"
    using msgs_distinct by simp
  from c1 c2 c3 c4 c5 c6 c7 c8 show ?thesis by blast
qed

theorem validation_order_witness:
  "fleiss_kappa_binary [[0, 1], [1]] = Inl (ValueError msg_length)
   \<and> fleiss_kappa_binary [[0, 1]] = Inl (ValueError msg_raters)
   \<and> fleiss_kappa_binary [[0, 2], [1, 1]] = Inl (ValueError msg_binary)
   \<and> fleiss_kappa_binary [[0], [1]] = Inl (ValueError msg_items)
   \<and> (\<exists>kappa po. fleiss_kappa_binary [[0, 1], [1, 1]] = Inr (kappa, po))"
  using validation_order [of "[[0, 1], [1]]"] validation_order [of "[[0, 1]]"]
    validation_order [of "[[0, 2], [1, 1]]"] validation_order [of "[[0], [1]]"]
    validation_order [of "[[0, 1], [1, 1]]"]
  by auto

section \<open>Failures and result sizes of the analysis\<close>

lemma upt_split_at:
  assumes "i < n"
  shows "[0..<n] = [0..<i] @ i # [Suc i..<n]"
proof -
  from assms have "[0..<n] = [0..<i] @ [i..<n]"
    by (metis le_add_diff_inverse less_imp_le_nat upt_add_eq_append zero_le)
  also from assms have "[i..<n] = i # [Suc i..<n]" by (rule upt_conv_Cons)
  finally show ?thesis .
qed

lemma reduced_ratings_take_drop:
  assumes "i < length m"
  shows "reduced_ratings m i = take i m @ drop (Suc i) m"
proof -
  have f: "filter (\<lambda>j. j \<noteq> i) [0..<length m] = [0..<i] @ [Suc i..<length m]"
    unfolding upt_split_at [OF assms] by simp
  have "take i m = take i (map ((!) m) [0..<length m])" by (simp add: map_nth)
  also have "\<dots> = map ((!) m) [0..<i]"
    unfolding take_map using assms by simp
  finally have t: "map ((!) m) [0..<i] = take i m" by simp
  have "drop (Suc i) m = drop (Suc i) (map ((!) m) [0..<length m])" by (simp add: map_nth)
  also have "\<dots> = map ((!) m) [Suc i..<length m]"
    unfolding drop_map by simp
  finally have d: "map ((!) m) [Suc i..<length m] = drop (Suc i) m" by simp
  show ?thesis
    unfolding reduced_ratings_def f map_append t d ..
qed

lemma length_reduced_ratings:
  "i < length m \<Longrightarrow> length (reduced_ratings m i) = length m - 1"
  by (simp add: reduced_ratings_take_drop)

lemma fleiss_kappa_binary_single:
  "length m = 1 \<Longrightarrow> fleiss_kappa_binary m = Inl (ValueError msg_raters)"
  by (auto simp: fleiss_kappa_binary_def chk_empty_def chk_raters_def)

lemma exclusion_loop_length:
  "exclusion_loop m js acc = Inr scores \<Longrightarrow> length scores = length acc + length js"
proof (induction js arbitrary: acc)
  case Nil
  then show ?case by simp
next
  case (Cons j js)
  from Cons.prems obtain kappa po where
    k: "fleiss_kappa_binary (reduced_ratings m j) = Inr (kappa, po)"
    and rest: "exclusion_loop m js (acc @ [kappa]) = Inr scores"
    by (auto split: sum.splits)
  from Cons.IH [OF rest] show ?case by simp
qed

lemma index_from_bounds:
  "index_from pos xs v = Inr i \<Longrightarrow> pos \<le> i \<and> i < pos + length xs"
proof (induction xs arbitrary: pos)
  case Nil
  then show ?case by simp
next
  case (Cons x xs)
  show ?case
  proof (cases "pos = fst v \<or> np_eq x (snd v)")
    case True
    with Cons.prems show ?thesis by simp
  next
    case False
    with Cons.prems have "index_from (Suc pos) xs v = Inr i" by simp
    from Cons.IH [OF this] show ?thesis by simp
  qed
qed

text \<open>
  Claim C9. The analyzer does not validate the matrix it is given. On the empty matrix
  the loop over the raters makes no call of the calculator and leaves the list of scores
  empty; the failure is that of taking the maximum of an empty sequence, whose message is
  none of the five messages of the calculator's validation, while the calculator itself
  rejects the empty matrix with the first of them.
\<close>

theorem analysis_of_empty_matrix:
  "reviewer_contribution_analysis [] = Inl (ValueError msg_max)
   \<and> exclusion_loop [] [0..<length ([] :: int list list)] [] = Inr []
   \<and> py_max [] = Inl (ValueError msg_max)
   \<and> msg_max \<noteq> msg_empty \<and> msg_max \<noteq> msg_raters \<and> msg_max \<noteq> msg_length
   \<and> msg_max \<noteq> msg_binary \<and> msg_max \<noteq> msg_items
   \<and> fleiss_kappa_binary [] = Inl (ValueError msg_empty)"
  by (simp add: reviewer_contribution_analysis_def py_max_def fleiss_kappa_binary_def
      chk_empty_def msg_max_def msg_empty_def msg_raters_def msg_length_def msg_binary_def
      msg_items_def)

text \<open>
  Claim C8. On a matrix with exactly two raters the analysis fails with the error of its
  first reduced computation, the one-row matrix left when rater 0 is excluded: the
  \<open>ValueError\<close> that asks for at least two raters. The result is the error alone, no
  score is returned.
\<close>

theorem analysis_of_two_raters:
  assumes "length m = 2"
  shows "reviewer_contribution_analysis m = Inl (ValueError msg_raters)
         \<and> fleiss_kappa_binary (reduced_ratings m 0) = Inl (ValueError msg_raters)
         \<and> reduced_ratings m 0 = [m ! 1]"
proof -
  from assms obtain a b where m: "m = [a, b]"
    by (metis length_0_conv length_Suc_conv numeral_2_eq_2)
  have r: "reduced_ratings m 0 = [m ! 1]"
    by (simp add: m reduced_ratings_take_drop)
  then have f: "fleiss_kappa_binary (reduced_ratings m 0) = Inl (ValueError msg_raters)"
    by (simp add: fleiss_kappa_binary_single)
  have u: "[0..<length m] = 0 # [1..<length m]"
    using assms by (simp add: upt_conv_Cons)
  have "exclusion_loop m [0..<length m] [] = Inl (ValueError msg_raters)"
    unfolding u by (simp add: f)
  then have "reviewer_contribution_analysis m = Inl (ValueError msg_raters)"
    by (simp add: reviewer_contribution_analysis_def)
  with f r show ?thesis by simp
qed

theorem analysis_of_two_raters_witness:
  "length [[1, 0, 1], [1, 1, 0 :: int]] = 2
   \<and> reviewer_contribution_analysis [[1, 0, 1], [1, 1, 0]] = Inl (ValueError msg_raters)
   \<and> fleiss_kappa_binary (reduced_ratings [[1, 0, 1], [1, 1, 0]] 0)
       = Inl (ValueError msg_raters)
   \<and> reduced_ratings [[1, 0, 1], [1, 1, 0]] 0 = [[[1, 0, 1], [1, 1, 0]] ! 1]"
proof -
  have h: "length [[1, 0, 1], [1, 1, 0 :: int]] = 2" by simp
  from h analysis_of_two_raters [OF h] show ?thesis by blast
qed

text \<open>
  Claim C10. Whenever the analysis of a matrix with \<open>R\<close> rows succeeds, the list of
  scores it returns has exactly \<open>R\<close> entries and the index it returns is below \<open>R\<close>
  (and, being a natural number, not below 0).
\<close>

theorem analysis_result_sizes:
  assumes "reviewer_contribution_analysis m = Inr (excluded_index, best_kappa, kappa_scores)"
  shows "length kappa_scores = length m \<and> 0 \<le> excluded_index \<and> excluded_index < length m"
proof -
  from assms obtain highest where
    l: "exclusion_loop m [0..<length m] [] = Inr kappa_scores"
    and i: "py_index kappa_scores highest = Inr excluded_index"
    by (auto simp: reviewer_contribution_analysis_def split: sum.splits)
  from exclusion_loop_length [OF l] have len: "length kappa_scores = length m" by simp
  from index_from_bounds [OF i [unfolded py_index_def]] len
  show ?thesis by simp
qed

theorem analysis_result_sizes_witness:
  "reviewer_contribution_analysis [[1, 0, 1, 1, 0], [1, 0, 1, 1, 0], [1, 1, 1, 0, 0]]
     = Inr (2, Fin 1, [Fin (1 / 6), Fin (1 / 6), Fin 1])
   \<and> length [Fin (1 / 6), Fin (1 / 6), Fin 1]
       = length [[1, 0, 1, 1, 0], [1, 0, 1, 1, 0], [1, 1, 1, 0, 0 :: int]]
   \<and> (0 :: nat) \<le> 2
   \<and> 2 < length [[1, 0, 1, 1, 0], [1, 0, 1, 1, 0], [1, 1, 1, 0, 0 :: int]]"
proof -
  have h: "reviewer_contribution_analysis [[1, 0, 1, 1, 0], [1, 0, 1, 1, 0], [1, 1, 1, 0, 0]]
     = Inr (2, Fin 1, [Fin (1 / 6), Fin (1 / 6), Fin 1])"
    by code_simp
  from h analysis_result_sizes [OF h] show ?thesis by blast
qed

section \<open>The calculator on a valid matrix\<close>

lemma valid_matrixD:
  assumes "valid_matrix m"
  shows "m \<noteq> []" "2 \<le> length m" "2 \<le> length (hd m)"
    "\<And>r. r \<in> set m \<Longrightarrow> length r = length (hd m)"
    "\<And>r x. r \<in> set m \<Longrightarrow> x \<in> set r \<Longrightarrow> x = 0 \<or> x = 1"
proof -
  from assms have a: "2 \<le> length m" and b: "2 \<le> length (hd m)"
    and c: "\<forall>r\<in>set m. length r = length (hd m)"
    and d: "\<forall>r\<in>set m. \<forall>x\<in>set r. x = 0 \<or> x = 1"
    unfolding valid_matrix_def list_all_iff by blast+
  from a show "m \<noteq> []" by auto
  from a show "2 \<le> length m" .
  from b show "2 \<le> length (hd m)" .
  from c show "\<And>r. r \<in> set m \<Longrightarrow> length r = length (hd m)" by blast
  from d show "\<And>r x. r \<in> set m \<Longrightarrow> x \<in> set r \<Longrightarrow> x = 0 \<or> x = 1" by blast
qed

lemma zip_star_valid:
  assumes "valid_matrix m"
  shows "zip_star m = map (column m) [0..<length (hd m)]"
proof -
  note v = valid_matrixD [OF assms]
  from v(1) have "hd m \<in> set m" by simp
  then have "length ` set m = {length (hd m)}" using v(4) by blast
  then have "Min (set (map length m)) = length (hd m)" by simp
  with v(1) show ?thesis
    unfolding zip_star_def column_def by simp
qed

lemma p_pos_of_valid:
  assumes "valid_matrix m"
  shows "p_pos_of m =
     (\<Sum>i\<leftarrow>[0..<length (hd m)]. of_int (sum_list (column m i)) / of_nat (length m))
       / of_nat (length (hd m))"
  unfolding p_pos_of_def np_mean_def zip_star_valid [OF assms]
  by (simp add: comp_def)

lemma agree_column:
  assumes "j < length m" "k < length m"
  shows "agree m i j k = (if column m i ! j = column m i ! k then 1 else 0)"
  using assms by (simp add: agree_def column_def)

lemma sum_list_map_cong:
  fixes f g :: "'a \<Rightarrow> nat"
  assumes "\<And>x. x \<in> set xs \<Longrightarrow> f x = g x"
  shows "sum_list (map f xs) = sum_list (map g xs)"
proof -
  from assms have "map f xs = map g xs" by simp
  then show ?thesis by (rule arg_cong)
qed

lemma agreements_columns:
  "fst (count_pairs m N (length m)) = (\<Sum>i\<leftarrow>[0..<N]. pairs_agree (column m i))"
proof -
  have inner: "(\<Sum>j\<leftarrow>[0..<length m]. \<Sum>k\<leftarrow>[Suc j..<length m]. agree m i j k)
      = pairs_agree (column m i)" for i
  proof -
    have len: "length (column m i) = length m" by (simp add: column_def)
    show ?thesis
      unfolding pairs_agree_def len
    proof (rule sum_list_map_cong)
      fix j assume j: "j \<in> set [0..<length m]"
      show "(\<Sum>k\<leftarrow>[Suc j..<length m]. agree m i j k)
          = (\<Sum>k\<leftarrow>[Suc j..<length m]. if column m i ! j = column m i ! k then 1 else 0)"
      proof (rule sum_list_map_cong)
        fix k assume "k \<in> set [Suc j..<length m]"
        with j show "agree m i j k = (if column m i ! j = column m i ! k then 1 else 0)"
          by (simp add: agree_column)
      qed
    qed
  qed
  show ?thesis
    unfolding count_pairs_sums fst_conv inner ..
qed

lemma fleiss_kappa_binary_columns:
  assumes "valid_matrix m"
  shows "fleiss_kappa_binary m =
     Inr (np_div
            (of_nat (\<Sum>i\<leftarrow>[0..<length (hd m)]. pairs_agree (column m i))
               / of_nat (length (hd m) * (length m * (length m - 1) div 2))
             - p_e_of m)
            (1 - p_e_of m),
          of_nat (\<Sum>i\<leftarrow>[0..<length (hd m)]. pairs_agree (column m i))
            / of_nat (length (hd m) * (length m * (length m - 1) div 2)))"
  unfolding fleiss_kappa_binary_valid [OF assms] agreements_columns count_pairs_total ..

section \<open>Agreeing pairs of a column\<close>

lemma sum_list_indicator_upt:
  "(\<Sum>k\<leftarrow>[a..<b]. if P k then 1 else 0) = card {k. a \<le> k \<and> k < b \<and> P k}"
proof -
  have "(\<Sum>k\<leftarrow>[a..<b]. if P k then 1 else 0) = (\<Sum>k\<in>{a..<b}. if P k then 1 else (0::nat))"
    by (simp add: interv_sum_list_conv_sum_set_nat)
  also have "\<dots> = sum (\<lambda>k. 1) {k \<in> {a..<b}. P k}"
    by (rule sum.inter_filter [symmetric]) simp
  also have "\<dots> = card {k \<in> {a..<b}. P k}" by simp
  also have "{k \<in> {a..<b}. P k} = {k. a \<le> k \<and> k < b \<and> P k}" by auto
  finally show ?thesis .
qed

lemma pairs_agree_card:
  "pairs_agree col = card {(j, k). j < k \<and> k < length col \<and> col ! j = col ! k}"
proof -
  let ?n = "length col"
  let ?B = "\<lambda>j. {k. Suc j \<le> k \<and> k < ?n \<and> col ! j = col ! k}"
  have "pairs_agree col = (\<Sum>j\<leftarrow>[0..<?n]. card (?B j))"
    unfolding pairs_agree_def sum_list_indicator_upt ..
  also have "\<dots> = (\<Sum>j\<in>{0..<?n}. card (?B j))"
    by (simp add: interv_sum_list_conv_sum_set_nat)
  also have "\<dots> = card (SIGMA j:{0..<?n}. ?B j)"
    by (rule card_SigmaI [symmetric]) simp_all
  also have "(SIGMA j:{0..<?n}. ?B j) = {(j, k). j < k \<and> k < ?n \<and> col ! j = col ! k}"
    by (auto simp: Suc_le_eq)
  finally show ?thesis .
qed

lemma sum_list_le:
  fixes f g :: "'a \<Rightarrow> nat"
  assumes "\<And>x. x \<in> set xs \<Longrightarrow> f x \<le> g x"
  shows "sum_list (map f xs) \<le> sum_list (map g xs)"
  using assms by (induction xs) (simp_all add: add_mono)

lemma pairs_agree_le: "pairs_agree col \<le> length col * (length col - 1) div 2"
proof -
  have "pairs_agree col \<le> (\<Sum>j\<leftarrow>[0..<length col]. \<Sum>k\<leftarrow>[Suc j..<length col]. (1::nat))"
    unfolding pairs_agree_def
    by (intro sum_list_le) simp
  then show ?thesis unfolding pairs_per_item .
qed

lemma pairs_agree_all_equal:
  assumes "\<And>j k. j < length col \<Longrightarrow> k < length col \<Longrightarrow> col ! j = col ! k"
  shows "pairs_agree col = length col * (length col - 1) div 2"
proof -
  have "pairs_agree col = (\<Sum>j\<leftarrow>[0..<length col]. \<Sum>k\<leftarrow>[Suc j..<length col]. (1::nat))"
    unfolding pairs_agree_def
  proof (rule sum_list_map_cong)
    fix j assume j: "j \<in> set [0..<length col]"
    show "(\<Sum>k\<leftarrow>[Suc j..<length col]. if col ! j = col ! k then 1 else 0)
        = (\<Sum>k\<leftarrow>[Suc j..<length col]. (1::nat))"
    proof (rule sum_list_map_cong)
      fix k assume "k \<in> set [Suc j..<length col]"
      with j assms show "(if col ! j = col ! k then 1 else 0) = (1::nat)" by simp
    qed
  qed
  then show ?thesis unfolding pairs_per_item .
qed






section \<open>Positive ratings of a column\<close>

lemma column_binary:
  assumes "valid_matrix m" "i < length (hd m)"
  shows "\<forall>x\<in>set (column m i). x = 0 \<or> x = 1"
proof
  fix x assume "x \<in> set (column m i)"
  note v = valid_matrixD [OF assms(1)]
  from \<open>x \<in> set (column m i)\<close> obtain r where r: "r \<in> set m" and x: "x = r ! i"
    unfolding column_def by auto
  from r assms(2) have "i < length r" by (simp add: v(4))
  then have "r ! i \<in> set r" by simp
  with r x show "x = 0 \<or> x = 1" using v(5) by blast
qed

lemma length_column: "length (column m i) = length m"
  by (simp add: column_def)

lemma binary_sum_count:
  assumes "\<forall>x\<in>set col. x = 0 \<or> x = (1::int)"
  shows "sum_list col = int (count_list col 1)"
  using assms
proof (induction col)
  case Nil
  show ?case by simp
next
  case (Cons x col)
  then have "x = 0 \<or> x = 1" and "sum_list col = int (count_list col 1)" by simp_all
  then show ?case by auto
qed

lemma count_list_card:
  "count_list col x = card {j. j < length col \<and> col ! j = x}"
proof -
  have "count_list col x = length (filter ((=) x) col)"
    by (induction col) simp_all
  also have "\<dots> = card {j. j < length col \<and> x = col ! j}"
    by (rule length_filter_conv_card)
  also have "{j. j < length col \<and> x = col ! j} = {j. j < length col \<and> col ! j = x}"
    by auto
  finally show ?thesis .
qed

lemma binary_sum_bounds:
  assumes "\<forall>x\<in>set col. x = 0 \<or> x = (1::int)"
  shows "0 \<le> sum_list col" "sum_list col \<le> int (length col)"
proof -
  have le: "count_list col (1::int) \<le> length col" by (rule count_le_length)
  have eq: "sum_list col = int (count_list col 1)" by (rule binary_sum_count [OF assms])
  show "0 \<le> sum_list col" unfolding eq by simp
  show "sum_list col \<le> int (length col)" unfolding eq using le by simp
qed

lemma binary_sum_zero:
  assumes "\<forall>x\<in>set col. x = 0 \<or> x = (1::int)" "sum_list col = 0" "x \<in> set col"
  shows "x = 0"
proof -
  from assms(1,2) have "count_list col 1 = 0" by (simp add: binary_sum_count)
  then have "1 \<notin> set col" by (simp add: count_list_0_iff)
  with assms(1,3) show ?thesis by blast
qed

lemma binary_sum_full:
  assumes "\<forall>x\<in>set col. x = 0 \<or> x = (1::int)" "sum_list col = int (length col)"
    "x \<in> set col"
  shows "x = 1"
  using assms
proof (induction col)
  case Nil
  then show ?case by simp
next
  case (Cons y col)
  have b: "\<forall>z\<in>set col. z = 0 \<or> z = 1" using Cons.prems(1) by simp
  from binary_sum_bounds(2) [OF b] have le: "sum_list col \<le> int (length col)" .
  from Cons.prems(1) have y: "y = 0 \<or> y = 1" by simp
  from Cons.prems(2) have s: "y + sum_list col = 1 + int (length col)" by simp
  from y s le have y1: "y = 1" and full: "sum_list col = int (length col)" by auto
  show ?case
  proof (cases "x = y")
    case True
    with y1 show ?thesis by simp
  next
    case False
    with Cons.prems(3) have "x \<in> set col" by simp
    from Cons.IH [OF b full this] show ?thesis .
  qed
qed

lemma constant_column_agrees:
  assumes "\<And>x. x \<in> set col \<Longrightarrow> x = c"
  shows "pairs_agree col = length col * (length col - 1) div 2"
proof (rule pairs_agree_all_equal)
  fix j k assume "j < length col" "k < length col"
  then have "col ! j \<in> set col" "col ! k \<in> set col" by simp_all
  with assms show "col ! j = col ! k" by metis
qed

section \<open>Observed and expected agreement\<close>

lemma valid_matrix_sizes:
  assumes "valid_matrix m"
  shows "(0::rat) < of_nat (length m)" "(0::rat) < of_nat (length (hd m))"
    "(of_nat (length m) :: rat) \<noteq> 0" "(of_nat (length (hd m)) :: rat) \<noteq> 0"
proof -
  from valid_matrixD(2) [OF assms] have a: "0 < length m" by linarith
  from valid_matrixD(3) [OF assms] have b: "0 < length (hd m)" by linarith
  from a show "(0::rat) < of_nat (length m)" by (simp only: of_nat_0_less_iff)
  from b show "(0::rat) < of_nat (length (hd m))" by (simp only: of_nat_0_less_iff)
  from a show "(of_nat (length m) :: rat) \<noteq> 0" by simp
  from b show "(of_nat (length (hd m)) :: rat) \<noteq> 0" by simp
qed

lemma total_pairs_pos:
  assumes "valid_matrix m"
  shows "0 < length (hd m) * (length m * (length m - 1) div 2)"
  using count_pairs_total_pos [OF valid_matrixD(2,3) [OF assms], of m]
  by (simp add: count_pairs_total)

lemma agreements_le_total:
  "(\<Sum>i\<leftarrow>[0..<N]. pairs_agree (column m i)) \<le> N * (length m * (length m - 1) div 2)"
proof -
  have "(\<Sum>i\<leftarrow>[0..<N]. pairs_agree (column m i))
      \<le> (\<Sum>i\<leftarrow>[0..<N]. length m * (length m - 1) div 2)"
    by (rule sum_list_le) (use pairs_agree_le [of "column m i" for i] in \<open>simp add: length_column\<close>)
  then show ?thesis by (simp add: sum_list_triv)
qed

lemma agreements_constant_columns:
  assumes "\<And>i. i < N \<Longrightarrow> \<exists>c. \<forall>x\<in>set (column m i). x = c"
  shows "(\<Sum>i\<leftarrow>[0..<N]. pairs_agree (column m i)) = N * (length m * (length m - 1) div 2)"
proof -
  have "(\<Sum>i\<leftarrow>[0..<N]. pairs_agree (column m i))
      = (\<Sum>i\<leftarrow>[0..<N]. length m * (length m - 1) div 2)"
  proof (rule sum_list_map_cong)
    fix i assume "i \<in> set [0..<N]"
    then have "i < N" by simp
    from assms [OF this] obtain c where "\<forall>x\<in>set (column m i). x = c" ..
    then have "pairs_agree (column m i) = length (column m i) * (length (column m i) - 1) div 2"
      by (intro constant_column_agrees) blast
    then show "pairs_agree (column m i) = length m * (length m - 1) div 2"
      by (simp add: length_column)
  qed
  then show ?thesis by (simp add: sum_list_triv)
qed

lemma fraction_bounds:
  assumes "valid_matrix m" "i < length (hd m)"
  shows "0 \<le> (of_int (sum_list (column m i)) / of_nat (length m) :: rat)"
    and "(of_int (sum_list (column m i)) / of_nat (length m) :: rat) \<le> 1"
proof -
  have b: "\<forall>x\<in>set (column m i). x = 0 \<or> x = 1"
    by (rule column_binary [OF assms])
  note R = valid_matrix_sizes(1) [OF assms(1)]
  from binary_sum_bounds(1) [OF b] have "(0::rat) \<le> of_int (sum_list (column m i))" by simp
  with R show "0 \<le> (of_int (sum_list (column m i)) / of_nat (length m) :: rat)" by simp
  from binary_sum_bounds(2) [OF b] have "sum_list (column m i) \<le> int (length m)"
    by (simp add: length_column)
  then have "(of_int (sum_list (column m i)) :: rat) \<le> of_int (int (length m))"
    by (simp only: of_int_le_iff)
  with R show "(of_int (sum_list (column m i)) / of_nat (length m) :: rat) \<le> 1"
    by (simp add: divide_le_eq)
qed

lemma p_pos_bounds:
  assumes "valid_matrix m"
  shows "0 \<le> p_pos_of m" "p_pos_of m \<le> 1"
proof -
  let ?f = "\<lambda>i. (of_int (sum_list (column m i)) / of_nat (length m) :: rat)"
  let ?N = "length (hd m)"
  note N = valid_matrix_sizes(2) [OF assms]
  have "0 \<le> sum_list (map ?f [0..<?N])"
    by (rule sum_list_nonneg) (use fraction_bounds(1) [OF assms] in auto)
  with N show "0 \<le> p_pos_of m"
    unfolding p_pos_of_valid [OF assms] by simp
  have "sum_list (map ?f [0..<?N]) \<le> sum_list (map (\<lambda>i. 1) [0..<?N])"
    by (rule sum_list_mono) (use fraction_bounds(2) [OF assms] in auto)
  then have "sum_list (map ?f [0..<?N]) \<le> of_nat ?N" by (simp add: sum_list_triv)
  with N show "p_pos_of m \<le> 1"
    unfolding p_pos_of_valid [OF assms] by (simp add: divide_le_eq)
qed

lemma p_pos_zero:
  assumes "valid_matrix m" "p_pos_of m = 0" "i < length (hd m)" "x \<in> set (column m i)"
  shows "x = 0"
proof -
  let ?f = "\<lambda>i. (of_int (sum_list (column m i)) / of_nat (length m) :: rat)"
  let ?N = "length (hd m)"
  note N = valid_matrix_sizes(4) [OF assms(1)]
  note R = valid_matrix_sizes(3) [OF assms(1)]
  from assms(2) N have "sum_list (map ?f [0..<?N]) = 0"
    unfolding p_pos_of_valid [OF assms(1)] by simp
  moreover have "\<And>y. y \<in> set (map ?f [0..<?N]) \<Longrightarrow> 0 \<le> y"
    using fraction_bounds(1) [OF assms(1)] by auto
  ultimately have "\<forall>y\<in>set (map ?f [0..<?N]). y = 0"
    by (simp only: sum_list_nonneg_eq_0_iff)
  moreover have "?f i \<in> set (map ?f [0..<?N])"
    using assms(3) by (simp only: set_map set_upt) (rule imageI, simp)
  ultimately have "?f i = 0" by blast
  with R have "sum_list (column m i) = 0" by simp
  from binary_sum_zero [OF column_binary [OF assms(1,3)] this assms(4)] show ?thesis .
qed

lemma p_pos_one:
  assumes "valid_matrix m" "p_pos_of m = 1" "i < length (hd m)" "x \<in> set (column m i)"
  shows "x = 1"
proof -
  let ?f = "\<lambda>i. (of_int (sum_list (column m i)) / of_nat (length m) :: rat)"
  let ?N = "length (hd m)"
  note N = valid_matrix_sizes(4) [OF assms(1)]
  note R = valid_matrix_sizes(3) [OF assms(1)]
  from assms(2) N have s: "sum_list (map ?f [0..<?N]) = of_nat ?N"
    unfolding p_pos_of_valid [OF assms(1)] by (simp add: divide_eq_eq)
  have "sum_list (map (\<lambda>i. 1 - ?f i) [0..<?N]) = of_nat ?N - sum_list (map ?f [0..<?N])"
    by (simp add: sum_list_subtractf sum_list_triv)
  with s have "sum_list (map (\<lambda>i. 1 - ?f i) [0..<?N]) = 0" by simp
  moreover have "\<And>y. y \<in> set (map (\<lambda>i. 1 - ?f i) [0..<?N]) \<Longrightarrow> 0 \<le> y"
    using fraction_bounds(2) [OF assms(1)] by auto
  ultimately have "\<forall>y\<in>set (map (\<lambda>i. 1 - ?f i) [0..<?N]). y = 0"
    by (simp only: sum_list_nonneg_eq_0_iff)
  moreover have "1 - ?f i \<in> set (map (\<lambda>i. 1 - ?f i) [0..<?N])"
    using assms(3) by (simp only: set_map set_upt) (rule imageI, simp)
  ultimately have "1 - ?f i = 0" by blast
  then have "1 = ?f i" by (simp only: right_minus_eq)
  then have "?f i = 1" by (rule sym)
  then have "(of_nat (length m) :: rat) \<noteq> 0
      \<and> (of_int (sum_list (column m i)) :: rat) = of_nat (length m)"
    by (rule divide_eq_1_iff [THEN iffD1])
  then have "(of_int (sum_list (column m i)) :: rat) = of_nat (length m)"
    by (rule conjunct2)
  then have "(of_int (sum_list (column m i)) :: rat) = of_int (int (length (column m i)))"
    by (simp add: length_column)
  then have "sum_list (column m i) = int (length (column m i))"
    by (simp only: of_int_eq_iff)
  from binary_sum_full [OF column_binary [OF assms(1,3)] this assms(4)] show ?thesis .
qed

lemma p_e_of_alt: "1 - p_e_of m = 2 * p_pos_of m * (1 - p_pos_of m)"
  by (simp add: p_e_of_def Let_def power2_eq_square algebra_simps)

lemma p_e_le_one:
  assumes "valid_matrix m"
  shows "p_e_of m \<le> 1"
proof -
  from p_pos_bounds [OF assms] have "0 \<le> 2 * p_pos_of m * (1 - p_pos_of m)" by simp
  then show ?thesis unfolding p_e_of_alt [symmetric] by simp
qed

lemma p_e_one_iff: "p_e_of m = 1 \<longleftrightarrow> p_pos_of m = 0 \<or> p_pos_of m = 1"
proof -
  have "p_e_of m = 1 \<longleftrightarrow> 1 - p_e_of m = 0" by auto
  also have "\<dots> \<longleftrightarrow> p_pos_of m = 0 \<or> p_pos_of m = 1"
    unfolding p_e_of_alt by auto
  finally show ?thesis .
qed

lemma degenerate_columns:
  assumes "valid_matrix m" "p_e_of m = 1" "i < length (hd m)"
  shows "\<exists>c. \<forall>x\<in>set (column m i). x = c"
proof -
  from assms(2) have "p_pos_of m = 0 \<or> p_pos_of m = 1" by (simp only: p_e_one_iff)
  then show ?thesis
  proof
    assume "p_pos_of m = 0"
    from p_pos_zero [OF assms(1) this assms(3)] show ?thesis by blast
  next
    assume "p_pos_of m = 1"
    from p_pos_one [OF assms(1) this assms(3)] show ?thesis by blast
  qed
qed

section \<open>Results of the calculator\<close>

lemma po_le_one:
  assumes "valid_matrix m"
  shows "(of_nat (\<Sum>i\<leftarrow>[0..<length (hd m)]. pairs_agree (column m i))
            / of_nat (length (hd m) * (length m * (length m - 1) div 2)) :: rat) \<le> 1"
proof -
  from total_pairs_pos [OF assms]
  have "(0::rat) < of_nat (length (hd m) * (length m * (length m - 1) div 2))"
    by (simp only: of_nat_0_less_iff)
  moreover from agreements_le_total [where N = "length (hd m)" and m = m]
  have "(of_nat (\<Sum>i\<leftarrow>[0..<length (hd m)]. pairs_agree (column m i)) :: rat)
      \<le> of_nat (length (hd m) * (length m * (length m - 1) div 2))"
    by (simp only: of_nat_le_iff)
  ultimately show ?thesis by (simp only: divide_le_eq_1_pos)
qed

lemma po_constant_columns:
  assumes "valid_matrix m"
    and "\<And>i. i < length (hd m) \<Longrightarrow> \<exists>c. \<forall>x\<in>set (column m i). x = c"
  shows "(of_nat (\<Sum>i\<leftarrow>[0..<length (hd m)]. pairs_agree (column m i))
            / of_nat (length (hd m) * (length m * (length m - 1) div 2)) :: rat) = 1"
proof -
  from total_pairs_pos [OF assms(1)]
  have nz: "(of_nat (length (hd m) * (length m * (length m - 1) div 2)) :: rat) \<noteq> 0"
    by simp
  have eq: "(\<Sum>i\<leftarrow>[0..<length (hd m)]. pairs_agree (column m i))
      = length (hd m) * (length m * (length m - 1) div 2)"
    by (rule agreements_constant_columns) (rule assms(2))
  show ?thesis unfolding eq using nz by (rule divide_self)
qed

lemma np_div_self: "a \<noteq> 0 \<Longrightarrow> np_div a a = Fin 1"
  by (simp add: np_div_def)

lemma np_div_fin: "b \<noteq> 0 \<Longrightarrow> np_div a b = Fin (a / b)"
  by (simp add: np_div_def)

lemma np_le_Fin: "np_le (Fin a) (Fin b) \<longleftrightarrow> a \<le> b"
  by (auto simp: np_le_def)

lemma np_div_zero: "np_div 0 0 = NaN"
  by (simp add: np_div_def)

lemma po_degenerate:
  assumes "valid_matrix m" "p_e_of m = 1"
  shows "(of_nat (\<Sum>i\<leftarrow>[0..<length (hd m)]. pairs_agree (column m i))
            / of_nat (length (hd m) * (length m * (length m - 1) div 2)) :: rat) = 1"
proof (rule po_constant_columns [OF assms(1)])
  fix i assume "i < length (hd m)"
  then show "\<exists>c. \<forall>x\<in>set (column m i). x = c"
    by (rule degenerate_columns [OF assms])
qed

lemma fleiss_kappa_binary_degenerate:
  assumes "valid_matrix m" "p_e_of m = 1"
  shows "fleiss_kappa_binary m = Inr (NaN, 1)"
  unfolding fleiss_kappa_binary_columns [OF assms(1)] po_degenerate [OF assms] assms(2)
  by (simp add: np_div_zero)

text \<open>
  Claim C4, as amended. On a valid matrix the expected agreement \<open>p_e\<close> is 1 exactly
  when \<open>p_pos\<close> is 0 or 1. On such a matrix the calculator does return: the observed
  agreement is 1, and kappa, the quotient 0 / 0 of two NumPy scalars, is not-a-number.
\<close>

theorem degenerate_expected_agreement:
  assumes "valid_matrix m"
  shows "(p_e_of m = 1 \<longleftrightarrow> p_pos_of m = 0 \<or> p_pos_of m = 1)
         \<and> (p_e_of m = 1 \<longrightarrow> fleiss_kappa_binary m = Inr (NaN, 1))"
  using fleiss_kappa_binary_degenerate [OF assms] p_e_one_iff [of m] by blast

theorem degenerate_expected_agreement_witness:
  "valid_matrix [[1, 1], [1, 1]] \<and> p_e_of [[1, 1], [1, 1]] = 1
   \<and> p_pos_of [[1, 1], [1, 1]] = 1
   \<and> fleiss_kappa_binary [[1, 1], [1, 1]] = Inr (NaN, 1)"
proof -
  have v: "valid_matrix [[1, 1], [1, 1]]" by code_simp
  have p: "p_pos_of [[1, 1], [1, 1]] = 1" by code_simp
  from v p degenerate_expected_agreement [OF v] show ?thesis by blast
qed

text \<open>
  As stated, with a failure in place of a result, claim C4 does not hold: the matrix of
  two raters who mark both items 0 is valid, has \<open>p_e = 1\<close>, and the calculator returns.
\<close>

theorem returns_on_degenerate_matrix:
  "valid_matrix [[0, 0], [0, 0]] \<and> p_e_of [[0, 0], [0, 0]] = 1
   \<and> fleiss_kappa_binary [[0, 0], [0, 0]] = Inr (NaN, 1)"
  by code_simp

text \<open>
  Claim C5, as amended. On every valid matrix the calculator returns, and the observed
  agreement it returns lies between 0 and 1. Where \<open>p_e\<close> is not 1, kappa is a finite
  number that is at most 1. Where \<open>p_e\<close> is 1, kappa is not-a-number, for which the
  comparison \<^verbatim>\<open>kappa <= 1\<close> is false.
\<close>

theorem agreement_ranges:
  assumes "valid_matrix m"
  shows "\<exists>kappa po. fleiss_kappa_binary m = Inr (kappa, po) \<and> 0 \<le> po \<and> po \<le> 1
           \<and> (p_e_of m \<noteq> 1 \<longrightarrow> (\<exists>q. kappa = Fin q \<and> q \<le> 1) \<and> np_le kappa (Fin 1))
           \<and> (p_e_of m = 1 \<longrightarrow> kappa = NaN \<and> \<not> np_le kappa (Fin 1))"
proof -
  let ?po = "(of_nat (\<Sum>i\<leftarrow>[0..<length (hd m)]. pairs_agree (column m i))
            / of_nat (length (hd m) * (length m * (length m - 1) div 2)) :: rat)"
  let ?kappa = "np_div (?po - p_e_of m) (1 - p_e_of m)"
  have r: "fleiss_kappa_binary m = Inr (?kappa, ?po)"
    by (rule fleiss_kappa_binary_columns [OF assms])
  have po0: "0 \<le> ?po" by simp
  have po1: "?po \<le> 1" by (rule po_le_one [OF assms])
  have nondeg: "(\<exists>q. ?kappa = Fin q \<and> q \<le> 1) \<and> np_le ?kappa (Fin 1)" if ne: "p_e_of m \<noteq> 1"
  proof -
    from p_e_le_one [OF assms] ne have pos: "0 < 1 - p_e_of m" by simp
    then have "1 - p_e_of m \<noteq> 0" by simp
    then have k: "?kappa = Fin ((?po - p_e_of m) / (1 - p_e_of m))"
      by (rule np_div_fin)
    from po1 have "?po - p_e_of m \<le> 1 - p_e_of m" by simp
    with pos have q: "(?po - p_e_of m) / (1 - p_e_of m) \<le> 1"
      by (simp only: divide_le_eq_1_pos)
    then have nl: "np_le (Fin ((?po - p_e_of m) / (1 - p_e_of m))) (Fin 1)"
      by (simp only: np_le_Fin)
    show ?thesis unfolding k using q nl by blast
  qed
  have deg: "?kappa = NaN \<and> \<not> np_le ?kappa (Fin 1)" if e: "p_e_of m = 1"
  proof -
    have "?kappa = NaN"
      unfolding po_degenerate [OF assms e] e by (simp add: np_div_zero)
    then show ?thesis by (simp only: np_le_def np_gt.simps np_eq.simps) simp
  qed
  from r po0 po1 nondeg deg show ?thesis by blast
qed

theorem agreement_ranges_witness:
  "valid_matrix [[1, 0], [0, 0]]
   \<and> fleiss_kappa_binary [[1, 0], [0, 0]] = Inr (Fin (- (1 / 3)), 1 / 2)
   \<and> p_e_of [[1, 0], [0, 0]] = 5 / 8
   \<and> np_le (Fin (- (1 / 3))) (Fin 1)"
proof -
  have v: "valid_matrix [[1, 0], [0, 0]]" by code_simp
  have c: "fleiss_kappa_binary [[1, 0], [0, 0]] = Inr (Fin (- (1 / 3)), 1 / 2)" by code_simp
  have p: "p_e_of [[1, 0], [0, 0]] = 5 / 8" by code_simp
  from agreement_ranges [OF v] obtain kappa po where
    "fleiss_kappa_binary [[1, 0], [0, 0]] = Inr (kappa, po)"
    and "p_e_of [[1, 0], [0, 0]] \<noteq> 1 \<longrightarrow> np_le kappa (Fin 1)" by blast
  with c p have "np_le (Fin (- (1 / 3))) (Fin 1)" by simp
  with v c p show ?thesis by blast
qed

text \<open>
  As stated, with \<open>kappa \<le> 1\<close> for every result, claim C5 does not hold: on the valid
  matrix of two raters who mark both items 1 the calculator returns a kappa that is
  not-a-number, and the comparison of a not-a-number with 1 is false.
\<close>

theorem kappa_not_at_most_one:
  "valid_matrix [[1, 1], [1, 1]]
   \<and> fleiss_kappa_binary [[1, 1], [1, 1]] = Inr (NaN, 1)
   \<and> \<not> np_le NaN (Fin 1)"
  by code_simp

text \<open>
  Claim C6. On a valid matrix whose rater rows are all the same, the calculator returns
  the observed agreement 1, and it returns kappa 1 whenever \<open>p_e < 1\<close>.
\<close>

theorem perfect_agreement:
  assumes "valid_matrix m" and "\<forall>r\<in>set m. r = hd m"
  shows "\<exists>kappa. fleiss_kappa_binary m = Inr (kappa, 1) \<and> (p_e_of m < 1 \<longrightarrow> kappa = Fin 1)"
proof -
  let ?po = "(of_nat (\<Sum>i\<leftarrow>[0..<length (hd m)]. pairs_agree (column m i))
            / of_nat (length (hd m) * (length m * (length m - 1) div 2)) :: rat)"
  have const: "\<exists>c. \<forall>x\<in>set (column m i). x = c" for i
  proof -
    have "\<forall>x\<in>set (column m i). x = hd m ! i"
      unfolding column_def using assms(2) by auto
    then show ?thesis ..
  qed
  have po: "?po = 1" by (rule po_constant_columns [OF assms(1) const])
  have r: "fleiss_kappa_binary m = Inr (np_div (1 - p_e_of m) (1 - p_e_of m), 1)"
    unfolding fleiss_kappa_binary_columns [OF assms(1)] po ..
  have "np_div (1 - p_e_of m) (1 - p_e_of m) = Fin 1" if "p_e_of m < 1"
    using that by (intro np_div_self) simp
  with r show ?thesis by blast
qed

theorem perfect_agreement_witness:
  "valid_matrix [[1, 0], [1, 0]] \<and> p_e_of [[1, 0], [1, 0]] < 1
   \<and> fleiss_kappa_binary [[1, 0], [1, 0]] = Inr (Fin 1, 1)"
proof -
  have v: "valid_matrix [[1, 0], [1, 0]]" by code_simp
  have a: "\<forall>r\<in>set [[1, 0], [1, 0 :: int]]. r = hd [[1, 0], [1, 0]]" by simp
  have p: "p_e_of [[1, 0], [1, 0]] < 1" by code_simp
  from perfect_agreement [OF v a] p v show ?thesis by blast
qed

section \<open>The calculator against the specification\<close>

lemma spec_agreements_columns:
  "spec_agreements m = (\<Sum>i\<leftarrow>[0..<length (hd m)]. pairs_agree (column m i))"
proof -
  have "pairs_agree (column m i)
      = card {(j, k). j < k \<and> k < length m \<and> m ! j ! i = m ! k ! i}" for i
  proof -
    have "{(j, k). j < k \<and> k < length (column m i) \<and> column m i ! j = column m i ! k}
        = {(j, k). j < k \<and> k < length m \<and> m ! j ! i = m ! k ! i}"
      by (auto simp: column_def)
    then show ?thesis by (simp only: pairs_agree_card)
  qed
  then show ?thesis
    by (simp add: spec_agreements_def interv_sum_list_conv_sum_set_nat atLeast0LessThan)
qed

lemma spec_total_pairs_eq:
  "spec_total_pairs m = length (hd m) * (length m * (length m - 1) div 2)"
proof -
  have "even (length m * (length m - 1))" by (cases "length m") auto
  then have "length (hd m) * (length m * (length m - 1) div 2)
      = length (hd m) * (length m * (length m - 1)) div 2"
    by (simp only: div_mult_swap)
  then show ?thesis by (simp add: spec_total_pairs_def mult.assoc)
qed

lemma spec_p_pos_eq:
  assumes "valid_matrix m"
  shows "spec_p_pos m = p_pos_of m"
proof -
  have "(of_int (sum_list (column m i)) :: rat)
      = of_nat (card {j. j < length m \<and> m ! j ! i = 1})" if "i < length (hd m)" for i
  proof -
    have "sum_list (column m i) = int (count_list (column m i) 1)"
      by (rule binary_sum_count [OF column_binary [OF assms that]])
    also have "count_list (column m i) 1
        = card {j. j < length (column m i) \<and> column m i ! j = 1}"
      by (rule count_list_card)
    also have "{j. j < length (column m i) \<and> column m i ! j = 1}
        = {j. j < length m \<and> m ! j ! i = 1}"
      by (auto simp: column_def)
    finally show ?thesis by simp
  qed
  then have "(\<Sum>i<length (hd m). of_nat (card {j. j < length m \<and> m ! j ! i = 1})
                 / (of_nat (length m) :: rat))
      = (\<Sum>i<length (hd m). of_int (sum_list (column m i)) / of_nat (length m))"
    by (intro sum.cong) simp_all
  then show ?thesis
    unfolding spec_p_pos_def p_pos_of_valid [OF assms]
    by (simp add: interv_sum_list_conv_sum_set_nat atLeast0LessThan)
qed

lemma spec_p_e_eq:
  assumes "valid_matrix m"
  shows "spec_p_e m = p_e_of m"
  by (simp add: spec_p_e_def p_e_of_def Let_def spec_p_pos_eq [OF assms])

text \<open>
  Claim C1. On every valid matrix the calculator returns the pair \<open>(kappa, po)\<close> where
  \<open>po\<close> is the quotient of the agreeing pairs by all pairs, the counters of the loop being
  the two numbers of the specification, and where \<open>kappa\<close> is the quotient of \<open>po - p_e\<close>
  by \<open>1 - p_e\<close>, with \<open>p_e = p_pos\<^sup>2 + (1 - p_pos)\<^sup>2\<close>. The quotient is the division of
  NumPy scalars: the rational quotient whenever \<open>p_e\<close> is not 1.
\<close>

theorem fleiss_kappa_binary_spec:
  assumes "valid_matrix m"
  shows "count_pairs m (length (hd m)) (length m) = (spec_agreements m, spec_total_pairs m)
    \<and> 0 < spec_total_pairs m
    \<and> p_pos_of m = spec_p_pos m
    \<and> fleiss_kappa_binary m =
         Inr (np_div (of_nat (spec_agreements m) / of_nat (spec_total_pairs m) - spec_p_e m)
                     (1 - spec_p_e m),
              of_nat (spec_agreements m) / of_nat (spec_total_pairs m))
    \<and> (spec_p_e m \<noteq> 1 \<longrightarrow>
         fleiss_kappa_binary m =
           Inr (Fin ((of_nat (spec_agreements m) / of_nat (spec_total_pairs m) - spec_p_e m)
                       / (1 - spec_p_e m)),
                of_nat (spec_agreements m) / of_nat (spec_total_pairs m)))"
proof -
  have c: "count_pairs m (length (hd m)) (length m) = (spec_agreements m, spec_total_pairs m)"
    by (simp only: prod_eq_iff fst_conv snd_conv agreements_columns count_pairs_total
        spec_agreements_columns spec_total_pairs_eq)
  have t: "0 < spec_total_pairs m"
    unfolding spec_total_pairs_eq by (rule total_pairs_pos [OF assms])
  have p: "p_pos_of m = spec_p_pos m" by (rule spec_p_pos_eq [OF assms, symmetric])
  have r: "fleiss_kappa_binary m =
         Inr (np_div (of_nat (spec_agreements m) / of_nat (spec_total_pairs m) - spec_p_e m)
                     (1 - spec_p_e m),
              of_nat (spec_agreements m) / of_nat (spec_total_pairs m))"
    unfolding fleiss_kappa_binary_columns [OF assms] spec_agreements_columns
      spec_total_pairs_eq spec_p_e_eq [OF assms] ..
  have f: "fleiss_kappa_binary m =
           Inr (Fin ((of_nat (spec_agreements m) / of_nat (spec_total_pairs m) - spec_p_e m)
                       / (1 - spec_p_e m)),
                of_nat (spec_agreements m) / of_nat (spec_total_pairs m))"
    if "spec_p_e m \<noteq> 1"
  proof -
    from that have "1 - spec_p_e m \<noteq> 0" by simp
    from np_div_fin [OF this] show ?thesis unfolding r by (simp only:)
  qed
  from c t p r f show ?thesis by blast
qed

theorem fleiss_kappa_binary_spec_witness:
  "valid_matrix [[1, 0, 1, 1, 0], [1, 0, 1, 1, 0], [1, 1, 1, 0, 0]]
   \<and> count_pairs [[1, 0, 1, 1, 0], [1, 0, 1, 1, 0], [1, 1, 1, 0, 0]] 5 3 = (11, 15)
   \<and> spec_agreements [[1, 0, 1, 1, 0], [1, 0, 1, 1, 0], [1, 1, 1, 0, 0]] = 11
   \<and> spec_total_pairs [[1, 0, 1, 1, 0], [1, 0, 1, 1, 0], [1, 1, 1, 0, 0]] = 15
   \<and> spec_p_pos [[1, 0, 1, 1, 0], [1, 0, 1, 1, 0], [1, 1, 1, 0, 0]] = 3 / 5
   \<and> fleiss_kappa_binary [[1, 0, 1, 1, 0], [1, 0, 1, 1, 0], [1, 1, 1, 0, 0]]
       = Inr (Fin (4 / 9), 11 / 15)"
proof -
  let ?m = "[[1, 0, 1, 1, 0], [1, 0, 1, 1, 0], [1, 1, 1, 0, 0 :: int]]"
  have v: "valid_matrix ?m" by code_simp
  have l: "length (hd ?m) = 5" "length ?m = 3" by simp_all
  have c: "count_pairs ?m 5 3 = (11, 15)" by code_simp
  have p: "p_pos_of ?m = 3 / 5" by code_simp
  have k: "fleiss_kappa_binary ?m = Inr (Fin (4 / 9), 11 / 15)" by code_simp
  from fleiss_kappa_binary_spec [OF v] have
    a: "count_pairs ?m (length (hd ?m)) (length ?m) = (spec_agreements ?m, spec_total_pairs ?m)"
    and b: "p_pos_of ?m = spec_p_pos ?m" by blast+
  from a [unfolded l] c have "(spec_agreements ?m, spec_total_pairs ?m) = (11, 15)"
    by (simp only:)
  then have "spec_agreements ?m = 11" "spec_total_pairs ?m = 15"
    by (simp_all only: prod.inject)
  moreover from b p have "spec_p_pos ?m = 3 / 5" by (simp only:)
  ultimately have "spec_agreements ?m = 11 \<and> spec_total_pairs ?m = 15 \<and> spec_p_pos ?m = 3 / 5"
    by blast
  with v c k show ?thesis by blast
qed

section \<open>Permuting raters and items\<close>












section \<open>Rounding to binary64\<close>

text \<open>
  The rounding function does what its name says: the exponent it computes brackets the
  number, and the result is a multiple of the unit in the last place that is at most
  half a unit away; ties go to the even multiple by definition.
\<close>

lemma pow2_pos: "0 < pow2 e"
  by (simp add: pow2_def)

lemma pow2_power_int: "pow2 e = 2 powi e"
  by (simp add: pow2_def power_int_def nat_minus_as_int field_simps)

lemma pow2_add: "pow2 (a + b) = pow2 a * pow2 b"
  by (simp add: pow2_power_int power_int_add)

lemma round_half_even_near: "\<bar>of_int (round_half_even x) - x\<bar> \<le> 1 / 2"
proof -
  have "of_int \<lfloor>x\<rfloor> \<le> x" "x < of_int \<lfloor>x\<rfloor> + 1" by linarith+
  then show ?thesis
    unfolding round_half_even_def Let_def
    by (auto simp: abs_le_iff)
qed

lemma binary64_near:
  assumes "x \<noteq> 0"
  shows "\<bar>binary64 x - x\<bar> \<le> pow2 (exponent_of x - 52) / 2"
proof -
  let ?u = "pow2 (exponent_of x - 52)"
  have u: "0 < ?u" by (rule pow2_pos)
  have "binary64 x - x = (of_int (round_half_even (x / ?u)) - x / ?u) * ?u"
    using assms u by (simp add: binary64_def Let_def field_simps)
  then have "\<bar>binary64 x - x\<bar> = \<bar>of_int (round_half_even (x / ?u)) - x / ?u\<bar> * ?u"
    using u by (simp add: abs_mult)
  also have "\<dots> \<le> 1 / 2 * ?u"
    by (rule mult_right_mono [OF round_half_even_near]) (use u in simp)
  finally show ?thesis by simp
qed

lemma exponent_of_bounds:
  assumes "x \<noteq> 0"
  shows "pow2 (exponent_of x) \<le> \<bar>x\<bar>" "\<bar>x\<bar> < pow2 (exponent_of x + 1)"
proof -
  obtain a b where q: "quotient_of \<bar>x\<bar> = (a, b)" by (cases "quotient_of \<bar>x\<bar>")
  then have b: "0 < b" by (rule quotient_of_denom_pos)
  from q have x: "\<bar>x\<bar> = of_int a / of_int b" by (rule quotient_of_div)
  from assms have "0 < \<bar>x\<bar>" by simp
  with x b have a: "0 < a" by (simp add: zero_less_divide_iff)
  let ?la = "bitlen a" and ?lb = "bitlen b"
  from bitlen_bounds [OF a] have a1: "2 ^ nat (?la - 1) \<le> a" and a2: "a < 2 ^ nat ?la" by simp_all
  from bitlen_bounds [OF b] have b1: "2 ^ nat (?lb - 1) \<le> b" and b2: "b < 2 ^ nat ?lb" by simp_all
  from a have la: "1 \<le> ?la" by (auto simp: bitlen_alt_def)
  from b have lb: "1 \<le> ?lb" by (auto simp: bitlen_alt_def)
  have A1: "pow2 (?la - 1) \<le> of_int a"
  proof -
    from a1 have "(of_int (2 ^ nat (?la - 1)) :: rat) \<le> of_int a" by (simp only: of_int_le_iff)
    then show ?thesis using la by (simp add: pow2_def)
  qed
  have A2: "of_int a < pow2 ?la"
  proof -
    from a2 have "(of_int a :: rat) < of_int (2 ^ nat ?la)" by (simp only: of_int_less_iff)
    then show ?thesis using la by (simp add: pow2_def)
  qed
  have B1: "pow2 (?lb - 1) \<le> of_int b"
  proof -
    from b1 have "(of_int (2 ^ nat (?lb - 1)) :: rat) \<le> of_int b" by (simp only: of_int_le_iff)
    then show ?thesis using lb by (simp add: pow2_def)
  qed
  have B2: "of_int b < pow2 ?lb"
  proof -
    from b2 have "(of_int b :: rat) < of_int (2 ^ nat ?lb)" by (simp only: of_int_less_iff)
    then show ?thesis using lb by (simp add: pow2_def)
  qed
  have bpos: "(0::rat) < of_int b" using b by simp
  have low: "pow2 (?la - ?lb - 1) \<le> \<bar>x\<bar>"
  proof -
    have "pow2 (?la - ?lb - 1) * of_int b \<le> pow2 (?la - ?lb - 1) * pow2 ?lb"
      using B2 pow2_pos [of "?la - ?lb - 1"] by (simp add: mult_left_mono less_imp_le)
    also have "\<dots> = pow2 (?la - 1)" by (simp add: pow2_add [symmetric])
    also have "\<dots> \<le> of_int a" by (rule A1)
    finally show ?thesis unfolding x using bpos by (simp add: le_divide_eq)
  qed
  have high: "\<bar>x\<bar> < pow2 (?la - ?lb + 1)"
  proof -
    have "of_int a < pow2 ?la" by (rule A2)
    also have "\<dots> = pow2 (?la - ?lb + 1) * pow2 (?lb - 1)" by (simp add: pow2_add [symmetric])
    also have "\<dots> \<le> pow2 (?la - ?lb + 1) * of_int b"
      using B1 pow2_pos [of "?la - ?lb + 1"] by (simp add: mult_left_mono)
    finally show ?thesis unfolding x using bpos by (simp add: divide_less_eq)
  qed
  have e: "exponent_of x = (if pow2 (?la - ?lb) \<le> \<bar>x\<bar> then ?la - ?lb else ?la - ?lb - 1)"
    by (simp add: exponent_of_def q)
  show "pow2 (exponent_of x) \<le> \<bar>x\<bar>" unfolding e using low by simp
  show "\<bar>x\<bar> < pow2 (exponent_of x + 1)" unfolding e using high by (simp add: not_le)
qed

lemma binary64_examples:
  "binary64 1 = 1"
  "binary64 (1 / 3) = 6004799503160661 / 18014398509481984"
  "binary64 (1 / 10) = 3602879701896397 / 36028797018963968"
  "binary64 (9007199254740993) = 9007199254740992"
  "binary64 (9007199254740995) = 9007199254740996"
  by code_simp+

section \<open>The calculator in binary64 arithmetic under permutations\<close>









section \<open>The analysis of a valid matrix\<close>

lemma reduced_ratings_without_row:
  "i < length m \<Longrightarrow> reduced_ratings m i = without_row m i"
  by (simp only: reduced_ratings_take_drop without_row_def)

lemma without_row_valid:
  assumes "valid_matrix m" "3 \<le> length m" "i < length m"
  shows "valid_matrix (without_row m i)"
proof -
  note v = valid_matrixD [OF assms(1)]
  have sub: "set (without_row m i) \<subseteq> set m"
    unfolding without_row_def using set_take_subset [of i m] set_drop_subset [of "Suc i" m]
    by auto
  from assms(3) have len: "length (without_row m i) = length m - 1"
    by (simp add: without_row_def)
  with assms(2) have two: "2 \<le> length (without_row m i)" by simp
  then have "without_row m i \<noteq> []" by auto
  then have "hd (without_row m i) \<in> set (without_row m i)" by simp
  with sub have "hd (without_row m i) \<in> set m" by blast
  then have hd: "length (hd (without_row m i)) = length (hd m)" by (rule v(4))
  show ?thesis
    unfolding valid_matrix_def list_all_iff hd
    using two v(3,4,5) sub by blast
qed

lemma exclusion_loop_map:
  assumes "\<And>j. j \<in> set js \<Longrightarrow> \<exists>po. fleiss_kappa_binary (reduced_ratings m j) = Inr (f j, po)"
  shows "exclusion_loop m js acc = Inr (acc @ map f js)"
  using assms
proof (induction js arbitrary: acc)
  case Nil
  show ?case by simp
next
  case (Cons j js)
  from Cons.prems [of j] obtain po where
    j: "fleiss_kappa_binary (reduced_ratings m j) = Inr (f j, po)" by auto
  have "exclusion_loop m js (acc @ [f j]) = Inr ((acc @ [f j]) @ map f js)"
    by (rule Cons.IH) (simp add: Cons.prems)
  then show ?case by (simp add: j)
qed

lemma max_scan_position:
  assumes "length pre = pos" "fst best < pos" "(pre @ items) ! fst best = snd best"
  shows "fst (max_scan best pos items) < pos + length items
       \<and> (pre @ items) ! fst (max_scan best pos items) = snd (max_scan best pos items)"
  using assms
proof (induction items arbitrary: best pos pre)
  case Nil
  then show ?case by simp
next
  case (Cons item items)
  let ?best = "if np_gt item (snd best) then (pos, item) else best"
  have a: "length (pre @ [item]) = Suc pos" using Cons.prems(1) by simp
  have b: "fst ?best < Suc pos" using Cons.prems(2) by simp
  have c: "((pre @ [item]) @ items) ! fst ?best = snd ?best"
  proof (cases "np_gt item (snd best)")
    case True
    then show ?thesis using Cons.prems(1) by (simp add: nth_append)
  next
    case False
    then show ?thesis using Cons.prems(3) by simp
  qed
  from Cons.IH [OF a b c] show ?case by simp
qed

lemma max_scan_Fin:
  "snd (max_scan (p, Fin b) pos (map Fin qs)) = Fin (Max (insert b (set qs)))"
proof (induction qs arbitrary: p b pos)
  case Nil
  show ?case by simp
next
  case (Cons q qs)
  have fin: "finite (set qs)" by simp
  show ?case
  proof (cases "b < q")
    case True
    have "q \<le> Max (insert q (set qs))" by (rule Max_ge) simp_all
    with True have "b \<le> Max (insert q (set qs))" by (rule less_le_trans [THEN less_imp_le])
    then have "max b (Max (insert q (set qs))) = Max (insert q (set qs))" by (rule max_absorb2)
    then have "Max (insert b (insert q (set qs))) = Max (insert q (set qs))"
      by (simp only: Max_insert [OF finite_insert [THEN iffD2, OF fin] insert_not_empty])
    with True show ?thesis by (simp add: Cons.IH)
  next
    case False
    have "b \<le> Max (insert b (set qs))" by (rule Max_ge) simp_all
    moreover from False have "q \<le> b" by simp
    ultimately have "q \<le> Max (insert b (set qs))" by (rule order_trans [rotated])
    then have "max q (Max (insert b (set qs))) = Max (insert b (set qs))" by (rule max_absorb2)
    then have "Max (insert q (insert b (set qs))) = Max (insert b (set qs))"
      by (simp only: Max_insert [OF finite_insert [THEN iffD2, OF fin] insert_not_empty])
    then have "Max (insert b (insert q (set qs))) = Max (insert b (set qs))"
      by (simp only: insert_commute)
    with False show ?thesis by (simp add: Cons.IH)
  qed
qed

lemma index_from_exists:
  assumes "pos \<le> fst v" "fst v < pos + length xs"
  shows "\<exists>i. index_from pos xs v = Inr i"
  using assms
proof (induction xs arbitrary: pos)
  case Nil
  then show ?case by simp
next
  case (Cons x xs)
  show ?case
  proof (cases "pos = fst v \<or> np_eq x (snd v)")
    case True
    then show ?thesis by simp
  next
    case False
    with Cons.prems have "Suc pos \<le> fst v" "fst v < Suc pos + length xs" by simp_all
    from Cons.IH [OF this] False show ?thesis by simp
  qed
qed

lemma index_from_first:
  assumes "index_from pos xs v = Inr i"
  shows "pos \<le> i \<and> i < pos + length xs
       \<and> (i = fst v \<or> np_eq (xs ! (i - pos)) (snd v))
       \<and> (\<forall>j. pos \<le> j \<and> j < i \<longrightarrow> \<not> np_eq (xs ! (j - pos)) (snd v))"
  using assms
proof (induction xs arbitrary: pos)
  case Nil
  then show ?case by simp
next
  case (Cons x xs)
  show ?case
  proof (cases "pos = fst v \<or> np_eq x (snd v)")
    case True
    with Cons.prems have "i = pos" by simp
    with True show ?thesis by auto
  next
    case False
    with Cons.prems have "index_from (Suc pos) xs v = Inr i" by simp
    from Cons.IH [OF this] have ih: "Suc pos \<le> i" "i < Suc pos + length xs"
      "i = fst v \<or> np_eq (xs ! (i - Suc pos)) (snd v)"
      "\<And>j. Suc pos \<le> j \<Longrightarrow> j < i \<Longrightarrow> \<not> np_eq (xs ! (j - Suc pos)) (snd v)"
      by blast+
    from ih(1) have shift: "(x # xs) ! (i - pos) = xs ! (i - Suc pos)"
      by (simp add: nth_Cons')
    have before: "\<not> np_eq ((x # xs) ! (j - pos)) (snd v)" if "pos \<le> j" "j < i" for j
    proof (cases "j = pos")
      case True
      with False show ?thesis by simp
    next
      case False
      with that have "Suc pos \<le> j" by simp
      from ih(4) [OF this that(2)] \<open>Suc pos \<le> j\<close> show ?thesis
        by (simp add: nth_Cons')
    qed
    from ih(1,2,3) shift before show ?thesis by auto
  qed
qed

lemma np_eq_Fin: "np_eq (Fin a) (Fin b) \<longleftrightarrow> a = b"
  by simp

lemma fleiss_kappa_binary_returns:
  assumes "valid_matrix m"
  shows "\<exists>kappa po. fleiss_kappa_binary m = Inr (kappa, po)"
  using fleiss_kappa_binary_columns [OF assms] by blast

lemma fleiss_kappa_binary_finite:
  assumes "valid_matrix m" "p_e_of m \<noteq> 1" "fleiss_kappa_binary m = Inr (kappa, po)"
  shows "\<exists>q. kappa = Fin q"
proof -
  from assms(2) have "1 - p_e_of m \<noteq> 0" by simp
  from np_div_fin [OF this] assms(3) show ?thesis
    unfolding fleiss_kappa_binary_columns [OF assms(1)] by auto
qed

lemma all_Fin_map:
  assumes "\<forall>x\<in>set xs. \<exists>q. x = Fin q"
  shows "\<exists>qs. xs = map Fin qs"
  using assms
proof (induction xs)
  case Nil
  show ?case by simp
next
  case (Cons x xs)
  then obtain q qs where "x = Fin q" "xs = map Fin qs" by auto
  then have "x # xs = map Fin (q # qs)" by simp
  then show ?case ..
qed

lemma analysis_scores:
  assumes "valid_matrix m" "3 \<le> length m"
  shows "\<exists>scores. exclusion_loop m [0..<length m] [] = Inr scores
           \<and> length scores = length m
           \<and> (\<forall>i<length m. \<exists>po. fleiss_kappa_binary (without_row m i) = Inr (scores ! i, po))"
proof -
  define f where "f j = fst (projr (fleiss_kappa_binary (without_row m j)))" for j
  have f: "\<exists>po. fleiss_kappa_binary (without_row m j) = Inr (f j, po)" if "j < length m" for j
  proof -
    from fleiss_kappa_binary_returns [OF without_row_valid [OF assms that]]
    obtain kappa po where "fleiss_kappa_binary (without_row m j) = Inr (kappa, po)" by blast
    then show ?thesis by (simp add: f_def)
  qed
  have "exclusion_loop m [0..<length m] [] = Inr ([] @ map f [0..<length m])"
  proof (rule exclusion_loop_map)
    fix j assume "j \<in> set [0..<length m]"
    then have j: "j < length m" by simp
    from f [OF j] show "\<exists>po. fleiss_kappa_binary (reduced_ratings m j) = Inr (f j, po)"
      by (simp only: reduced_ratings_without_row [OF j])
  qed
  then have l: "exclusion_loop m [0..<length m] [] = Inr (map f [0..<length m])" by simp
  have "\<exists>po. fleiss_kappa_binary (without_row m i) = Inr (map f [0..<length m] ! i, po)"
    if "i < length m" for i
    using f [OF that] that by simp
  with l show ?thesis by auto
qed

lemma analysis_selection:
  assumes "scores \<noteq> []"
  shows "\<exists>highest idx. py_max scores = Inr highest \<and> py_index scores highest = Inr idx
           \<and> idx < length scores
           \<and> scores ! fst highest = snd highest
           \<and> (idx = fst highest \<or> np_eq (scores ! idx) (snd highest))
           \<and> (\<forall>j<idx. \<not> np_eq (scores ! j) (snd highest))"
proof -
  from assms obtain x rest where s: "scores = x # rest" by (cases scores) auto
  define highest where "highest = max_scan (0, x) 1 rest"
  have m: "py_max scores = Inr highest" by (simp add: py_max_def s highest_def)
  have "fst (max_scan (0, x) 1 rest) < 1 + length rest
      \<and> ([x] @ rest) ! fst (max_scan (0, x) 1 rest) = snd (max_scan (0, x) 1 rest)"
    by (rule max_scan_position) simp_all
  then have p: "fst highest < length scores" "scores ! fst highest = snd highest"
    by (simp_all add: s highest_def)
  from index_from_exists [of 0 highest scores] p(1)
  obtain idx where i: "index_from 0 scores highest = Inr idx" by auto
  from index_from_first [OF i]
  have "idx < length scores" "idx = fst highest \<or> np_eq (scores ! idx) (snd highest)"
    "\<forall>j<idx. \<not> np_eq (scores ! j) (snd highest)"
    by simp_all
  with m i p(2) show ?thesis unfolding py_index_def by blast
qed

lemma py_max_Fin:
  assumes "qs \<noteq> []" "py_max (map Fin qs) = Inr highest"
  shows "snd highest = Fin (Max (set qs))"
proof -
  from assms(1) obtain q rest where q: "qs = q # rest" by (cases qs) auto
  from assms(2) have "highest = max_scan (0, Fin q) 1 (map Fin rest)"
    by (simp add: py_max_def q)
  then show ?thesis by (simp only: max_scan_Fin q list.set)
qed

text \<open>
  What the analysis delivers. On every valid matrix with at least three raters it
  returns a triple \<open>(excluded_index, best_kappa, per_exclusion_kappas)\<close> in which entry
  \<open>i\<close> of the list is the kappa that the calculator returns for the matrix without row
  \<open>i\<close>. When no matrix without one row has \<open>p_e = 1\<close>, all these kappas are finite
  numbers, \<open>best_kappa\<close> is their maximum and \<open>excluded_index\<close> is the lowest index that
  holds the maximum, as the docstring of the analysis says.
\<close>

theorem contribution_analysis:
  assumes "valid_matrix m" "3 \<le> length m"
  shows "\<exists>excluded_index best_kappa kappa_scores.
      reviewer_contribution_analysis m = Inr (excluded_index, best_kappa, kappa_scores)
    \<and> length kappa_scores = length m
    \<and> (\<forall>i<length m. \<exists>po.
          fleiss_kappa_binary (without_row m i) = Inr (kappa_scores ! i, po))
    \<and> ((\<forall>i<length m. p_e_of (without_row m i) \<noteq> 1) \<longrightarrow>
          (\<exists>qs. kappa_scores = map Fin qs \<and> best_kappa = Fin (Max (set qs))
             \<and> excluded_index < length qs \<and> qs ! excluded_index = Max (set qs)
             \<and> (\<forall>i<excluded_index. qs ! i < Max (set qs))))"
proof -
  from analysis_scores [OF assms] obtain scores where
    loop: "exclusion_loop m [0..<length m] [] = Inr scores"
    and len: "length scores = length m"
    and each: "\<forall>i<length m. \<exists>po. fleiss_kappa_binary (without_row m i) = Inr (scores ! i, po)"
    by blast
  from len assms(2) have ne: "scores \<noteq> []" by auto
  from analysis_selection [OF ne] obtain highest idx where
    mx: "py_max scores = Inr highest" and ix: "py_index scores highest = Inr idx"
    and idx: "idx < length scores"
    and at: "scores ! fst highest = snd highest"
    and hit: "idx = fst highest \<or> np_eq (scores ! idx) (snd highest)"
    and first: "\<forall>j<idx. \<not> np_eq (scores ! j) (snd highest)"
    by blast
  have res: "reviewer_contribution_analysis m = Inr (idx, snd highest, scores)"
    by (simp add: reviewer_contribution_analysis_def loop mx ix)
  have fin: "\<exists>qs. scores = map Fin qs \<and> snd highest = Fin (Max (set qs))
             \<and> idx < length qs \<and> qs ! idx = Max (set qs)
             \<and> (\<forall>i<idx. qs ! i < Max (set qs))"
    if nondeg: "\<forall>i<length m. p_e_of (without_row m i) \<noteq> 1"
  proof -
    have "\<exists>q. x = Fin q" if "x \<in> set scores" for x
    proof -
      from that obtain i where i: "i < length scores" and x: "x = scores ! i"
        by (auto simp: in_set_conv_nth)
      from i len have im: "i < length m" by simp
      with each obtain po where "fleiss_kappa_binary (without_row m i) = Inr (scores ! i, po)"
        by blast
      from fleiss_kappa_binary_finite [OF without_row_valid [OF assms im] _ this] nondeg im
      show ?thesis unfolding x by blast
    qed
    then have "\<exists>qs. scores = map Fin qs" by (intro all_Fin_map) blast
    then obtain qs where qs: "scores = map Fin qs" ..
    with ne have qne: "qs \<noteq> []" by auto
    from py_max_Fin [OF qne mx [unfolded qs]]
    have best: "snd highest = Fin (Max (set qs))" .
    from idx qs have iq: "idx < length qs" by simp
    have eq: "qs ! idx = Max (set qs)"
    proof -
      from hit at have "scores ! idx = snd highest \<or> np_eq (scores ! idx) (snd highest)"
        by auto
      then show ?thesis unfolding best qs using iq by auto
    qed
    have less: "qs ! i < Max (set qs)" if "i < idx" for i
    proof -
      from that iq have il: "i < length qs" by simp
      from first that have "\<not> np_eq (scores ! i) (snd highest)" by blast
      then have "qs ! i \<noteq> Max (set qs)" unfolding best qs using il by simp
      moreover from il have "qs ! i \<le> Max (set qs)" by (intro Max_ge) simp_all
      ultimately show ?thesis by simp
    qed
    from qs best iq eq less show ?thesis by blast
  qed
  from res len each fin show ?thesis by blast
qed

theorem contribution_analysis_witness:
  "valid_matrix [[1, 0, 1, 1, 0], [1, 0, 1, 1, 0], [1, 1, 1, 0, 0]]
   \<and> 3 \<le> length [[1, 0, 1, 1, 0], [1, 0, 1, 1, 0], [1, 1, 1, 0, 0 :: int]]
   \<and> reviewer_contribution_analysis [[1, 0, 1, 1, 0], [1, 0, 1, 1, 0], [1, 1, 1, 0, 0]]
       = Inr (2, Fin 1, [Fin (1 / 6), Fin (1 / 6), Fin 1])
   \<and> p_e_of (without_row [[1, 0, 1, 1, 0], [1, 0, 1, 1, 0], [1, 1, 1, 0, 0]] 0) \<noteq> 1
   \<and> p_e_of (without_row [[1, 0, 1, 1, 0], [1, 0, 1, 1, 0], [1, 1, 1, 0, 0]] 1) \<noteq> 1
   \<and> p_e_of (without_row [[1, 0, 1, 1, 0], [1, 0, 1, 1, 0], [1, 1, 1, 0, 0]] 2) \<noteq> 1
   \<and> (\<exists>qs. [Fin (1 / 6), Fin (1 / 6), Fin 1] = map Fin qs \<and> Fin 1 = Fin (Max (set qs))
         \<and> 2 < length qs \<and> qs ! 2 = Max (set qs))"
proof -
  let ?m = "[[1, 0, 1, 1, 0], [1, 0, 1, 1, 0], [1, 1, 1, 0, 0 :: int]]"
  have v: "valid_matrix ?m" by code_simp
  have l: "3 \<le> length ?m" by simp
  have r: "reviewer_contribution_analysis ?m = Inr (2, Fin 1, [Fin (1 / 6), Fin (1 / 6), Fin 1])"
    by code_simp
  have p0: "p_e_of (without_row ?m 0) \<noteq> 1" by code_simp
  have p1: "p_e_of (without_row ?m 1) \<noteq> 1" by code_simp
  have p2: "p_e_of (without_row ?m 2) \<noteq> 1" by code_simp
  have nondeg: "\<forall>i<length ?m. p_e_of (without_row ?m i) \<noteq> 1"
  proof (intro allI impI)
    fix i assume "i < length ?m"
    then have "i = 0 \<or> i = 1 \<or> i = 2" by auto
    with p0 p1 p2 show "p_e_of (without_row ?m i) \<noteq> 1" by blast
  qed
  from contribution_analysis [OF v l] obtain excluded_index best_kappa kappa_scores where
    a: "reviewer_contribution_analysis ?m = Inr (excluded_index, best_kappa, kappa_scores)"
    and b: "(\<forall>i<length ?m. p_e_of (without_row ?m i) \<noteq> 1) \<longrightarrow>
          (\<exists>qs. kappa_scores = map Fin qs \<and> best_kappa = Fin (Max (set qs))
             \<and> excluded_index < length qs \<and> qs ! excluded_index = Max (set qs)
             \<and> (\<forall>i<excluded_index. qs ! i < Max (set qs)))"
    by blast
  from a r have "Inr (excluded_index, best_kappa, kappa_scores)
      = (Inr (2, Fin 1, [Fin (1 / 6), Fin (1 / 6), Fin 1])
          :: py_error + nat \<times> npfloat \<times> npfloat list)"
    by (rule trans [OF sym])
  then have "excluded_index = 2 \<and> best_kappa = Fin 1
      \<and> kappa_scores = [Fin (1 / 6), Fin (1 / 6), Fin 1]"
    by (simp only: sum.inject prod.inject)
  then have e: "excluded_index = 2" "best_kappa = Fin 1"
    "kappa_scores = [Fin (1 / 6), Fin (1 / 6), Fin 1]" by blast+
  from b nondeg have "\<exists>qs. kappa_scores = map Fin qs \<and> best_kappa = Fin (Max (set qs))
             \<and> excluded_index < length qs \<and> qs ! excluded_index = Max (set qs)" by blast
  then have "\<exists>qs. [Fin (1 / 6), Fin (1 / 6), Fin 1] = map Fin qs \<and> Fin 1 = Fin (Max (set qs))
         \<and> 2 < length qs \<and> qs ! 2 = Max (set qs)"
    unfolding e .
  with v l r p0 p1 p2 show ?thesis by blast
qed

text \<open>
  Claim C3. The analysis of a valid matrix with at least three raters is to return, with
  the kappa of every matrix without one row, the maximum of these kappas and the lowest
  index that holds it; the docstring of the analysis promises
  \<^verbatim>\<open>the highest Kappa score obtained by excluding a reviewer\<close>. The code misses this where the matrix without some
  row has all its ratings equal, so that its kappa is not-a-number. On the first matrix
  below the not-a-number is the first score, \<^verbatim>\<open>max\<close> keeps it, and what is returned as
  the highest score is neither at least the second score nor equal to any score. On the
  second matrix, the same three raters in another order, the not-a-number comes last and
  is passed over: the result depends on the order of the raters.
\<close>

theorem maximum_with_degenerate_reduction:
  "valid_matrix [[1, 0], [0, 0], [0, 0]]
   \<and> 3 \<le> length [[1, 0], [0, 0], [0, 0 :: int]]
   \<and> reviewer_contribution_analysis [[1, 0], [0, 0], [0, 0]]
       = Inr (0, NaN, [NaN, Fin (- (1 / 3)), Fin (- (1 / 3))])
   \<and> \<not> np_le (Fin (- (1 / 3))) NaN
   \<and> \<not> np_eq NaN NaN
   \<and> mset [[0, 0], [0, 0], [1, 0 :: int]] = mset [[1, 0], [0, 0], [0, 0]]
   \<and> reviewer_contribution_analysis [[0, 0], [0, 0], [1, 0]]
       = Inr (0, Fin (- (1 / 3)), [Fin (- (1 / 3)), Fin (- (1 / 3)), NaN])"
proof -
  have a: "valid_matrix [[1, 0], [0, 0], [0, 0]]
     \<and> 3 \<le> length [[1, 0], [0, 0], [0, 0 :: int]]
     \<and> reviewer_contribution_analysis [[1, 0], [0, 0], [0, 0]]
         = Inr (0, NaN, [NaN, Fin (- (1 / 3)), Fin (- (1 / 3))])
     \<and> \<not> np_le (Fin (- (1 / 3))) NaN
     \<and> \<not> np_eq NaN NaN"
    by code_simp
  have b: "mset [[0, 0], [0, 0], [1, 0 :: int]] = mset [[1, 0], [0, 0], [0, 0]]"
    by simp
  have c: "reviewer_contribution_analysis [[0, 0], [0, 0], [1, 0]]
       = Inr (0, Fin (- (1 / 3)), [Fin (- (1 / 3)), Fin (- (1 / 3)), NaN])"
    by code_simp
  from a b c show ?thesis by blast
qed

end
